theory Spec2Isabelle
  imports Complex_Main
begin

unbundle bit_operations_syntax

section \<open>Values of the C program\<close>

text \<open>
  A C \<open>double\<close>.  Finite values are modelled by exact rationals, together with the two
  infinities and NaN.  Rounding to 53 bits and the sign of zero are not modelled: the
  arithmetic below agrees with IEEE 754 wherever every operand and result is an
  integer below \<open>2 ^ 53\<close> in magnitude, and the numeric statements of this theory are
  made only at such inputs.
\<close>

datatype double = Fin rat | PInf | NInf | NaN

text \<open>
  A \<open>const void *\<close>: null, the address of a caller's \<open>double\<close>, or the address of a
  function.  \<open>FunPtr n\<close> is the static function \<open>n\<close> of \<open>tinyexpr.c\<close> (the operators
  \<open>add\<close>, \<open>sub\<close>, \<open>mul\<close>, \<open>divide\<close>, \<open>negate\<close>, \<open>comma\<close> and the builtins \<open>pi\<close>, \<open>e\<close>,
  \<open>fac\<close>, \<open>ncr\<close>, \<open>npr\<close>); \<open>ExtPtr n\<close> is the function \<open>n\<close> defined elsewhere: in the C
  library (\<open>math.h\<close>) or by the caller.
\<close>

datatype ptr = NULL | DoublePtr nat | FunPtr string | ExtPtr string

text \<open>The anonymous union \<open>{double value; const double *bound; const void *function;}\<close>
  of \<open>state\<close> and \<open>te_expr\<close>: the member written last.\<close>

datatype payload = Value double | Bound ptr | Function ptr

text \<open>Reading the union through a pointer member.  Reading the pointer after a
  \<open>double\<close> was stored reinterprets its bytes; no path of the parser does so, and the
  model returns the null pointer there.\<close>

fun pointer_of :: "payload \<Rightarrow> ptr" where
  "pointer_of (Value v) = NULL"
| "pointer_of (Bound p) = p"
| "pointer_of (Function p) = p"

text \<open>Reading the union as \<open>value\<close>; after a pointer was stored the model reads NaN.\<close>

fun value_of :: "payload \<Rightarrow> double" where
  "value_of (Value v) = v"
| "value_of (Bound p) = NaN"
| "value_of (Function p) = NaN"

subsection \<open>Node and token types\<close>

text \<open>
  The enumerators of \<open>tinyexpr.h\<close>, which is not among the sources; the values are
  those the masks of \<open>tinyexpr.c\<close> rely on (\<open>TYPE_MASK\<close> keeps five bits, \<open>ARITY\<close>
  tests \<open>TE_FUNCTION0 | TE_CLOSURE0\<close> and keeps three bits, and \<open>TOK_NULL\<close> is
  \<open>TE_CLOSURE7 + 1\<close>).
\<close>

abbreviation (input) TE_VARIABLE :: int where "TE_VARIABLE \<equiv> 0"
abbreviation (input) TE_CONSTANT :: int where "TE_CONSTANT \<equiv> 1"
abbreviation (input) TE_FUNCTION0 :: int where "TE_FUNCTION0 \<equiv> 8"
abbreviation (input) TE_FUNCTION1 :: int where "TE_FUNCTION1 \<equiv> 9"
abbreviation (input) TE_FUNCTION2 :: int where "TE_FUNCTION2 \<equiv> 10"
abbreviation (input) TE_FUNCTION3 :: int where "TE_FUNCTION3 \<equiv> 11"
abbreviation (input) TE_FUNCTION7 :: int where "TE_FUNCTION7 \<equiv> 15"
abbreviation (input) TE_CLOSURE0 :: int where "TE_CLOSURE0 \<equiv> 16"
abbreviation (input) TE_CLOSURE1 :: int where "TE_CLOSURE1 \<equiv> 17"
abbreviation (input) TE_CLOSURE2 :: int where "TE_CLOSURE2 \<equiv> 18"
abbreviation (input) TE_CLOSURE7 :: int where "TE_CLOSURE7 \<equiv> 23"
abbreviation (input) TE_FLAG_PURE :: int where "TE_FLAG_PURE \<equiv> 32"

abbreviation (input) TOK_NULL :: int where "TOK_NULL \<equiv> 24"
abbreviation (input) TOK_ERROR :: int where "TOK_ERROR \<equiv> 25"
abbreviation (input) TOK_END :: int where "TOK_END \<equiv> 26"
abbreviation (input) TOK_SEP :: int where "TOK_SEP \<equiv> 27"
abbreviation (input) TOK_OPEN :: int where "TOK_OPEN \<equiv> 28"
abbreviation (input) TOK_CLOSE :: int where "TOK_CLOSE \<equiv> 29"
abbreviation (input) TOK_NUMBER :: int where "TOK_NUMBER \<equiv> 30"
abbreviation (input) TOK_VARIABLE :: int where "TOK_VARIABLE \<equiv> 31"
abbreviation (input) TOK_INFIX :: int where "TOK_INFIX \<equiv> 32"

definition TYPE_MASK :: "int \<Rightarrow> int" where
  "TYPE_MASK t = t AND 31"

definition IS_PURE :: "int \<Rightarrow> bool" where
  "IS_PURE t = (t AND TE_FLAG_PURE \<noteq> 0)"

definition IS_CLOSURE :: "int \<Rightarrow> bool" where
  "IS_CLOSURE t = (t AND TE_CLOSURE0 \<noteq> 0)"

definition ARITY :: "int \<Rightarrow> int" where
  "ARITY t = (if t AND (TE_FUNCTION0 OR TE_CLOSURE0) \<noteq> 0 then t AND 7 else 0)"

subsection \<open>Structures\<close>

text \<open>\<open>te_variable\<close>: a registration entry.  The fields \<open>type\<close> and \<open>context\<close> carry
  the prefix \<open>var_\<close>, since \<open>state\<close> has fields of the same names.\<close>

record te_variable =
  name :: string
  address :: ptr
  var_type :: int
  var_context :: nat

text \<open>\<open>te_expr\<close>: the node type, the union, and the \<open>parameters\<close> array, whose first
  \<open>ARITY\<close> slots are the children; the slot after them, which holds the context
  pointer of a closure, is the field \<open>closure_context\<close>.\<close>

datatype te_expr =
  Node (node_type: int) (node_u: payload) (parameters: "te_expr list") (closure_context: nat)

text \<open>
  \<open>state\<close>, the cursor of one compilation.  \<open>next\<close> is the C string at the pointer
  \<open>s->next\<close> (the characters up to the terminator), so \<open>s->next - s->start\<close> is the number
  of characters of \<open>start\<close> that are no longer in \<open>next\<close>.  \<open>lookup\<close> is \<open>None\<close> for a
  null table.  Two fields are not in the C structure: \<open>heap\<close> lists the outcomes of the
  calls of \<open>malloc\<close> still to come (\<open>False\<close>: it returns null; the empty list: it never
  does), and \<open>ub\<close> records that an indeterminate pointer has been passed to \<open>te_free\<close>.
\<close>

record state =
  start :: string
  "next" :: string
  type :: int
  u :: payload
  "context" :: nat
  lookup :: "te_variable list option"
  lookup_len :: nat
  heap :: "bool list"
  ub :: bool

section \<open>The C library\<close>

text \<open>\<open>isalpha\<close> and \<open>isdigit\<close> of \<open>ctype.h\<close> in the "C" locale.\<close>

definition isalpha :: "char \<Rightarrow> bool" where
  "isalpha c = ((65 \<le> (of_char c :: nat) \<and> (of_char c :: nat) \<le> 90)
              \<or> (97 \<le> (of_char c :: nat) \<and> (of_char c :: nat) \<le> 122))"

definition isdigit :: "char \<Rightarrow> bool" where
  "isdigit c = (48 \<le> (of_char c :: nat) \<and> (of_char c :: nat) \<le> 57)"

text \<open>\<open>s[i]\<close> in a C string: the terminator is read at \<open>i = strlen s\<close>.\<close>

definition cnth :: "string \<Rightarrow> nat \<Rightarrow> char" where
  "cnth s i = (if i < length s then s ! i else CHR 0x00)"

text \<open>\<open>strncmp\<close>: the difference of the first two bytes that differ among the first
  \<open>n\<close>, the terminator included.\<close>

fun strncmp :: "string \<Rightarrow> string \<Rightarrow> nat \<Rightarrow> int" where
  "strncmp a b 0 = 0"
| "strncmp [] [] (Suc n) = 0"
| "strncmp [] (y # ys) (Suc n) = - of_char y"
| "strncmp (x # xs) [] (Suc n) = of_char x"
| "strncmp (x # xs) (y # ys) (Suc n) =
     (if x \<noteq> y then of_char x - of_char y else strncmp xs ys n)"

text \<open>
  \<open>strtod\<close> as C89 defines it for a subject that starts with a digit or a point:
  digits, optionally a point and digits, at least one digit in all, then optionally
  an exponent \<open>e\<close> or \<open>E\<close>, a sign and at least one digit.  It returns the value and the
  rest of the string; when there is no digit nothing is consumed and the value is 0.
\<close>

definition digits_val :: "string \<Rightarrow> nat" where
  "digits_val ds = foldl (\<lambda>a c. 10 * a + (of_char c - 48)) 0 ds"

definition strtod_exponent :: "string \<Rightarrow> int \<times> string" where
  "strtod_exponent r =
     (case r of
        [] \<Rightarrow> (0, r)
      | c # r1 \<Rightarrow>
          if c = CHR ''e'' \<or> c = CHR ''E'' then
            (let (neg, r2) =
                   (case r1 of
                      [] \<Rightarrow> (False, r1)
                    | sg # r' \<Rightarrow>
                        if sg = CHR ''-'' then (True, r')
                        else if sg = CHR ''+'' then (False, r')
                        else (False, r1));
                 ds = takeWhile isdigit r2
             in if ds = [] then (0, r)
                else ((if neg then - int (digits_val ds) else int (digits_val ds)),
                      dropWhile isdigit r2))
          else (0, r))"

definition strtod_fraction :: "string \<Rightarrow> string \<times> string" where
  "strtod_fraction r =
     (case r of
        [] \<Rightarrow> ([], r)
      | c # r1 \<Rightarrow>
          if c = CHR ''.'' then (takeWhile isdigit r1, dropWhile isdigit r1)
          else ([], r))"

definition strtod :: "string \<Rightarrow> double \<times> string" where
  "strtod s =
     (let ip = takeWhile isdigit s;
          (fp, r2) = strtod_fraction (dropWhile isdigit s)
      in if ip = [] \<and> fp = [] then (Fin 0, s)
         else
           (let (ex, r3) = strtod_exponent r2;
                m = of_nat (digits_val (ip @ fp)) / 10 ^ length fp
            in (Fin (if 0 \<le> ex then m * 10 ^ nat ex else m / 10 ^ nat (- ex)), r3)))"

section \<open>The function registry\<close>

definition builtin :: "string \<Rightarrow> ptr \<Rightarrow> int \<Rightarrow> te_variable" where
  "builtin n f t = \<lparr>name = n, address = f, var_type = t, var_context = 0\<rparr>"

text \<open>The table \<open>functions\<close> of the default build (\<open>TE_NAT_LOG\<close> is not defined), without
  its terminating entry \<open>{0, 0, 0, 0}\<close>.\<close>

definition "functions" :: "te_variable list" where
  "functions =
    [builtin ''abs'' (ExtPtr ''fabs'') (TE_FUNCTION1 OR TE_FLAG_PURE),
     builtin ''acos'' (ExtPtr ''acos'') (TE_FUNCTION1 OR TE_FLAG_PURE),
     builtin ''asin'' (ExtPtr ''asin'') (TE_FUNCTION1 OR TE_FLAG_PURE),
     builtin ''atan'' (ExtPtr ''atan'') (TE_FUNCTION1 OR TE_FLAG_PURE),
     builtin ''atan2'' (ExtPtr ''atan2'') (TE_FUNCTION2 OR TE_FLAG_PURE),
     builtin ''ceil'' (ExtPtr ''ceil'') (TE_FUNCTION1 OR TE_FLAG_PURE),
     builtin ''cos'' (ExtPtr ''cos'') (TE_FUNCTION1 OR TE_FLAG_PURE),
     builtin ''cosh'' (ExtPtr ''cosh'') (TE_FUNCTION1 OR TE_FLAG_PURE),
     builtin ''e'' (FunPtr ''e'') (TE_FUNCTION0 OR TE_FLAG_PURE),
     builtin ''exp'' (ExtPtr ''exp'') (TE_FUNCTION1 OR TE_FLAG_PURE),
     builtin ''fac'' (FunPtr ''fac'') (TE_FUNCTION1 OR TE_FLAG_PURE),
     builtin ''floor'' (ExtPtr ''floor'') (TE_FUNCTION1 OR TE_FLAG_PURE),
     builtin ''ln'' (ExtPtr ''log'') (TE_FUNCTION1 OR TE_FLAG_PURE),
     builtin ''log'' (ExtPtr ''log10'') (TE_FUNCTION1 OR TE_FLAG_PURE),
     builtin ''log10'' (ExtPtr ''log10'') (TE_FUNCTION1 OR TE_FLAG_PURE),
     builtin ''ncr'' (FunPtr ''ncr'') (TE_FUNCTION2 OR TE_FLAG_PURE),
     builtin ''npr'' (FunPtr ''npr'') (TE_FUNCTION2 OR TE_FLAG_PURE),
     builtin ''pi'' (FunPtr ''pi'') (TE_FUNCTION0 OR TE_FLAG_PURE),
     builtin ''pow'' (ExtPtr ''pow'') (TE_FUNCTION2 OR TE_FLAG_PURE),
     builtin ''sin'' (ExtPtr ''sin'') (TE_FUNCTION1 OR TE_FLAG_PURE),
     builtin ''sinh'' (ExtPtr ''sinh'') (TE_FUNCTION1 OR TE_FLAG_PURE),
     builtin ''sqrt'' (ExtPtr ''sqrt'') (TE_FUNCTION1 OR TE_FLAG_PURE),
     builtin ''tan'' (ExtPtr ''tan'') (TE_FUNCTION1 OR TE_FLAG_PURE),
     builtin ''tanh'' (ExtPtr ''tanh'') (TE_FUNCTION1 OR TE_FLAG_PURE)]"

text \<open>
  The binary search of \<open>find_builtin\<close> over a table \<open>tbl\<close>; \<open>name\<close> is the C string at the
  start of the identifier and \<open>len\<close> the identifier's length.  \<open>find_builtin\<close> starts it
  with \<open>imin = 0\<close> and \<open>imax = sizeof(functions) / sizeof(te_variable) - 2\<close>, the index of
  the last entry before the terminating one.
\<close>

function bsearch :: "te_variable list \<Rightarrow> string \<Rightarrow> nat \<Rightarrow> int \<Rightarrow> int \<Rightarrow> te_variable option" where
  "bsearch tbl nm len imin imax =
     (if imax \<ge> imin then
        (let i = imin + (imax - imin) div 2;
             c = strncmp nm (name (tbl ! nat i)) len;
             c = (if c = 0 then 0 - of_char (cnth (name (tbl ! nat i)) len) else c)
         in if c = 0 then Some (tbl ! nat i)
            else if c > 0 then bsearch tbl nm len (i + 1) imax
            else bsearch tbl nm len imin (i - 1))
      else None)"
  by pat_completeness auto
termination
proof (relation "measure (\<lambda>(tbl, nm, len, imin, imax). nat (imax - imin + 1))", goal_cases)
  case 1
  show ?case by simp
next
  case (2 tbl nm len imin imax)
  from 2(1) have "(imax - imin) div 2 \<le> imax - imin \<and> 0 \<le> (imax - imin) div 2"
    by presburger
  with 2 show ?case by simp
next
  case (3 tbl nm len imin imax)
  from 3(1) have "(imax - imin) div 2 \<le> imax - imin \<and> 0 \<le> (imax - imin) div 2"
    by presburger
  with 3 show ?case by simp
qed

declare bsearch.simps [simp del]

definition find_builtin :: "string \<Rightarrow> nat \<Rightarrow> te_variable option" where
  "find_builtin nm len = bsearch functions nm len 0 (int (length functions) - 1)"

text \<open>
  The loop of \<open>find_lookup\<close> over the caller's array \<open>var\<close> with \<open>iters\<close> entries still to
  visit.  An array shorter than \<open>lookup_len\<close> is outside the caller's contract (the C
  code reads past its end); the model stops there.
\<close>

fun find_lookup_loop :: "te_variable list \<Rightarrow> nat \<Rightarrow> string \<Rightarrow> nat \<Rightarrow> te_variable option" where
  "find_lookup_loop var 0 nm len = None"
| "find_lookup_loop [] (Suc iters) nm len = None"
| "find_lookup_loop (v # var) (Suc iters) nm len =
     (if strncmp nm (name v) len = 0 \<and> cnth (name v) len = CHR 0x00 then Some v
      else find_lookup_loop var iters nm len)"

definition find_lookup :: "state \<Rightarrow> string \<Rightarrow> nat \<Rightarrow> te_variable option" where
  "find_lookup s nm len =
     (case lookup s of
        None \<Rightarrow> None
      | Some var \<Rightarrow> find_lookup_loop var (lookup_len s) nm len)"

section \<open>The tokenizer\<close>

definition is_ident_char :: "char \<Rightarrow> bool" where
  "is_ident_char c = (isalpha c \<or> isdigit c \<or> c = CHR ''_'')"

definition infix_token :: "state \<Rightarrow> ptr \<Rightarrow> state" where
  "infix_token s f = s\<lparr>type := TOK_INFIX, u := Function f\<rparr>"

text \<open>The \<open>switch\<close> on \<open>TYPE_MASK(var->type)\<close> in \<open>next_token\<close>: the token for an identifier
  that was resolved to the entry \<open>var\<close>.  A type that is neither a variable, a function
  nor a closure leaves the token as it is, \<open>TOK_NULL\<close>.\<close>

definition var_token :: "state \<Rightarrow> te_variable \<Rightarrow> state" where
  "var_token s var =
     (let m = TYPE_MASK (var_type var)
      in if m = TE_VARIABLE then
           s\<lparr>type := TOK_VARIABLE, u := Bound (address var)\<rparr>
         else if TE_CLOSURE0 \<le> m \<and> m \<le> TE_CLOSURE7 then
           s\<lparr>context := var_context var, type := var_type var,
              u := Function (address var)\<rparr>
         else if TE_FUNCTION0 \<le> m \<and> m \<le> TE_FUNCTION7 then
           s\<lparr>type := var_type var, u := Function (address var)\<rparr>
         else s)"

text \<open>One pass through the body of the \<open>do ... while\<close> loop of \<open>next_token\<close>, on an input
  that is not at its end: \<open>c\<close> is \<open>s->next[0]\<close> and \<open>cs\<close> the string after it.\<close>

definition next_token_body :: "state \<Rightarrow> char \<Rightarrow> string \<Rightarrow> state" where
  "next_token_body s c cs =
     (if isdigit c \<or> c = CHR ''.'' then
        (let (v, r) = strtod (c # cs)
         in s\<lparr>u := Value v, next := r, type := TOK_NUMBER\<rparr>)
      else if isalpha c then
        (let start = c # cs;
             s1 = s\<lparr>next := dropWhile is_ident_char (c # cs)\<rparr>;
             len = length start - length (next s1);
             var = (case find_lookup s1 start len of
                      None \<Rightarrow> find_builtin start len
                    | Some v \<Rightarrow> Some v)
         in case var of
              None \<Rightarrow> s1\<lparr>type := TOK_ERROR\<rparr>
            | Some var \<Rightarrow> var_token s1 var)
      else
        (let s1 = s\<lparr>next := cs\<rparr>
         in if c = CHR ''+'' then infix_token s1 (FunPtr ''add'')
            else if c = CHR ''-'' then infix_token s1 (FunPtr ''sub'')
            else if c = CHR ''*'' then infix_token s1 (FunPtr ''mul'')
            else if c = CHR ''/'' then infix_token s1 (FunPtr ''divide'')
            else if c = CHR ''^'' then infix_token s1 (ExtPtr ''pow'')
            else if c = CHR ''%'' then infix_token s1 (ExtPtr ''fmod'')
            else if c = CHR ''('' then s1\<lparr>type := TOK_OPEN\<rparr>
            else if c = CHR '')'' then s1\<lparr>type := TOK_CLOSE\<rparr>
            else if c = CHR '','' then s1\<lparr>type := TOK_SEP\<rparr>
            else if c = CHR '' '' \<or> c = CHR 0x09 \<or> c = CHR 0x0A \<or> c = CHR 0x0D then s1
            else s1\<lparr>type := TOK_ERROR\<rparr>))"

text \<open>The loop: it ends with \<open>TOK_END\<close> at the terminator, and otherwise runs the body
  until the token type is no longer \<open>TOK_NULL\<close>.\<close>

function next_token_loop :: "state \<Rightarrow> state" where
  "next_token_loop s =
     (case next s of
        [] \<Rightarrow> s\<lparr>type := TOK_END\<rparr>
      | c # cs \<Rightarrow>
          (let s' = next_token_body s c cs
           in if type s' = TOK_NULL then next_token_loop s' else s'))"
  by pat_completeness auto

lemma next_token_body_number:
  "isdigit c \<or> c = CHR ''.'' \<Longrightarrow> type (next_token_body s c cs) = TOK_NUMBER"
  by (simp add: next_token_body_def split: prod.splits)

lemma next_token_body_ident_next:
  "\<not> (isdigit c \<or> c = CHR ''.'') \<Longrightarrow> isalpha c \<Longrightarrow>
   next (next_token_body s c cs) = dropWhile is_ident_char cs"
  by (simp add: next_token_body_def var_token_def Let_def is_ident_char_def split: option.splits)

lemma next_token_body_other_next:
  "\<not> (isdigit c \<or> c = CHR ''.'') \<Longrightarrow> \<not> isalpha c \<Longrightarrow>
   next (next_token_body s c cs) = cs"
  by (simp add: next_token_body_def Let_def infix_token_def)

termination next_token_loop
proof (relation "measure (\<lambda>s. length (next s))", goal_cases)
  case 1
  show ?case by simp
next
  case (2 s c cs s')
  have le: "length (dropWhile is_ident_char cs) \<le> length cs"
    by (rule length_dropWhile_le)
  show ?case
  proof (cases "isdigit c \<or> c = CHR ''.''")
    case True
    with 2 next_token_body_number [OF True, of s cs] show ?thesis by simp
  next
    case False
    show ?thesis
    proof (cases "isalpha c")
      case True
      with 2 le next_token_body_ident_next [OF False True, of s cs] show ?thesis by simp
    next
      case nalpha: False
      with 2 next_token_body_other_next [OF False nalpha, of s cs] show ?thesis by simp
    qed
  qed
qed

declare next_token_loop.simps [simp del]

text \<open>\<open>next_token\<close>.\<close>

definition next_token :: "state \<Rightarrow> state" where
  "next_token s = next_token_loop (s\<lparr>type := TOK_NULL\<rparr>)"

section \<open>Nodes\<close>

text \<open>A call of \<open>malloc\<close>: whether it returns memory, which is the head of \<open>heap\<close>.\<close>

definition malloc :: "state \<Rightarrow> bool \<times> state" where
  "malloc s = (case heap s of [] \<Rightarrow> (True, s) | ok # h \<Rightarrow> (ok, s\<lparr>heap := h\<rparr>))"

text \<open>
  \<open>new_expr\<close>: the new node has the given type, a zeroed union and context slot, and
  the first \<open>ARITY type\<close> entries of \<open>parameters\<close> as children (the callers pass a null
  \<open>parameters\<close>, here the empty list, only with a type of arity 0).
\<close>

definition new_expr :: "int \<Rightarrow> te_expr list \<Rightarrow> state \<Rightarrow> te_expr option \<times> state" where
  "new_expr t params s =
     (case malloc s of
        (ok, s') \<Rightarrow>
          if ok then (Some (Node t (Bound NULL) (take (nat (ARITY t)) params) 0), s')
          else (None, s'))"

text \<open>The assignments \<open>ret->value = v\<close>, \<open>ret->bound = p\<close>, \<open>ret->function = f\<close> and the store of
  a closure's context pointer after the children.\<close>

fun set_value :: "te_expr \<Rightarrow> double \<Rightarrow> te_expr" where
  "set_value (Node t w ps c) v = Node t (Value v) ps c"

fun set_bound :: "te_expr \<Rightarrow> ptr \<Rightarrow> te_expr" where
  "set_bound (Node t w ps c) p = Node t (Bound p) ps c"

fun set_function :: "te_expr \<Rightarrow> ptr \<Rightarrow> te_expr" where
  "set_function (Node t w ps c) f = Node t (Function f) ps c"

fun set_context :: "te_expr \<Rightarrow> nat \<Rightarrow> te_expr" where
  "set_context (Node t w ps c) x = Node t w ps x"

section \<open>The parser\<close>

text \<open>The measure of what is left to parse: twice the characters not yet read, plus
  a weight for the current token.\<close>

definition weight :: "state \<Rightarrow> nat" where
  "weight s = 2 * length (next s)
     + (if type s = TOK_END \<or> type s = TOK_ERROR then 0
        else if type s = TOK_NUMBER then 1 else 2)"


lemma strtod_exponent_length: "length (snd (strtod_exponent r)) \<le> length r"
proof -
  have a: "\<And>xs. length (dropWhile isdigit xs) \<le> length xs"
    by (rule length_dropWhile_le)
  show ?thesis
    using a [of r] a [of "tl r"] a [of "tl (tl r)"]
    by (auto simp: strtod_exponent_def Let_def split: list.splits)
qed

lemma strtod_fraction_length: "length (snd (strtod_fraction r)) \<le> length r"
  using length_dropWhile_le [of isdigit "tl r"]
  by (auto simp: strtod_fraction_def split: list.splits)

lemma strtod_length: "length (snd (strtod s)) \<le> length s"
proof -
  obtain fp r2 where f: "strtod_fraction (dropWhile isdigit s) = (fp, r2)"
    by (cases "strtod_fraction (dropWhile isdigit s)")
  obtain ex r3 where e: "strtod_exponent r2 = (ex, r3)"
    by (cases "strtod_exponent r2")
  have "length r3 \<le> length r2"
    using strtod_exponent_length [of r2] e by simp
  also have "length r2 \<le> length (dropWhile isdigit s)"
    using strtod_fraction_length [of "dropWhile isdigit s"] f by simp
  also have "\<dots> \<le> length s"
    by (rule length_dropWhile_le)
  finally show ?thesis
    by (simp add: strtod_def Let_def f e)
qed

lemma next_token_body_weight:
  "weight (next_token_body s c cs) \<le> 2 * length cs + 3"
  "type (next_token_body s c cs) \<noteq> TOK_NUMBER \<Longrightarrow> weight (next_token_body s c cs) \<le> 2 * length cs + 2"
  "type (next_token_body s c cs) = TOK_NULL \<Longrightarrow> length (next (next_token_body s c cs)) \<le> length cs"
proof -
  have le: "length (dropWhile is_ident_char cs) \<le> length cs"
    by (rule length_dropWhile_le)
  consider (num) "isdigit c \<or> c = CHR ''.''"
    | (ident) "\<not> (isdigit c \<or> c = CHR ''.'')" "isalpha c"
    | (other) "\<not> (isdigit c \<or> c = CHR ''.'')" "\<not> isalpha c"
    by blast
  then have "weight (next_token_body s c cs) \<le> 2 * length cs + 3
     \<and> (type (next_token_body s c cs) \<noteq> TOK_NUMBER \<longrightarrow> weight (next_token_body s c cs) \<le> 2 * length cs + 2)
     \<and> (type (next_token_body s c cs) = TOK_NULL \<longrightarrow> length (next (next_token_body s c cs)) \<le> length cs)"
  proof cases
    case num
    have "length (snd (strtod (c # cs))) \<le> length (c # cs)"
      by (rule strtod_length)
    moreover obtain v r where "strtod (c # cs) = (v, r)"
      by (cases "strtod (c # cs)")
    ultimately show ?thesis
      using num by (simp add: next_token_body_def weight_def)
  next
    case ident
    from ident le next_token_body_ident_next [OF ident, of s cs] show ?thesis
      by (simp add: weight_def)
  next
    case other
    from other next_token_body_other_next [OF other, of s cs] show ?thesis
      by (simp add: weight_def)
  qed
  then show "weight (next_token_body s c cs) \<le> 2 * length cs + 3"
  "type (next_token_body s c cs) \<noteq> TOK_NUMBER \<Longrightarrow> weight (next_token_body s c cs) \<le> 2 * length cs + 2"
  "type (next_token_body s c cs) = TOK_NULL \<Longrightarrow> length (next (next_token_body s c cs)) \<le> length cs"
    by blast+
qed

lemma next_token_loop_weight: "weight (next_token_loop s) \<le> 2 * length (next s) + 1"
proof (induction s rule: next_token_loop.induct)
  case (1 s)
  show ?case
  proof (cases "next s")
    case Nil
    then show ?thesis
      by (simp add: next_token_loop.simps [of s] weight_def)
  next
    case (Cons c cs)
    show ?thesis
    proof (cases "type (next_token_body s c cs) = TOK_NULL")
      case True
      with 1 [OF Cons refl True] next_token_body_weight(3) [OF True] Cons show ?thesis
        by (simp add: next_token_loop.simps [of s])
    next
      case False
      with next_token_body_weight(1,2) [of s c cs] Cons show ?thesis
        by (simp add: next_token_loop.simps [of s])
    qed
  qed
qed

lemma next_token_weight: "weight (next_token s) \<le> 2 * length (next s) + 1"
  using next_token_loop_weight [of "s\<lparr>type := TOK_NULL\<rparr>"] by (simp add: next_token_def)


text \<open>The sign loop at the head of \<open>power\<close>: it flips \<open>sign\<close> at each \<open>-\<close> and reads on
  while the token is an infix \<open>+\<close> or \<open>-\<close>.\<close>

function power_signs :: "int \<Rightarrow> state \<Rightarrow> int \<times> state" where
  "power_signs sign s =
     (if type s = TOK_INFIX
         \<and> (pointer_of (u s) = FunPtr ''add'' \<or> pointer_of (u s) = FunPtr ''sub'')
      then power_signs (if pointer_of (u s) = FunPtr ''sub'' then - sign else sign) (next_token s)
      else (sign, s))"
  by pat_completeness auto
termination
proof (relation "measure (\<lambda>(sign, s). weight s)", goal_cases)
  case 1
  show ?case by simp
next
  case (2 sign s)
  then show ?case
    using next_token_weight [of s] by (simp add: weight_def)
qed

declare power_signs.simps [simp del]

text \<open>
  The productions.  \<open>power\<close>, \<open>term\<close> and \<open>list\<close> carry the suffix \<open>_te\<close>, their names being
  taken in HOL.  Each returns the subtree (\<open>None\<close> for a null pointer) and the
  cursor.  A \<open>while\<close> or \<open>for\<close> loop of a production is the function of the same name with
  the suffix \<open>_loop\<close>, which takes the loop's variables: the tree \<open>ret\<close> built so far, or
  for \<open>base\<close> the counter \<open>i\<close> and the entries of \<open>params\<close> assigned so far.  \<open>te_free\<close> changes
  no value the program reads afterwards and has no counterpart, except that the calls in
  the error branch of \<open>base\<close> read all \<open>ARITY(f_type)\<close> entries of \<open>params\<close>, assigned or
  not: \<open>ub\<close> is set when one of them was never assigned.
\<close>

function base :: "state \<Rightarrow> te_expr option \<times> state"
  and base_loop :: "int \<Rightarrow> int \<Rightarrow> te_expr list \<Rightarrow> state \<Rightarrow> (int \<times> te_expr list) option \<times> state"
  and power_te :: "state \<Rightarrow> te_expr option \<times> state"
  and factor :: "state \<Rightarrow> te_expr option \<times> state"
  and factor_loop :: "te_expr \<Rightarrow> state \<Rightarrow> te_expr option \<times> state"
  and term_te :: "state \<Rightarrow> te_expr option \<times> state"
  and term_loop :: "te_expr \<Rightarrow> state \<Rightarrow> te_expr option \<times> state"
  and expr :: "state \<Rightarrow> te_expr option \<times> state"
  and expr_loop :: "te_expr \<Rightarrow> state \<Rightarrow> te_expr option \<times> state"
  and list_te :: "state \<Rightarrow> te_expr option \<times> state"
  and list_loop :: "te_expr \<Rightarrow> state \<Rightarrow> te_expr option \<times> state"
where
  "base s =
     (let m = TYPE_MASK (type s)
      in if m = TOK_NUMBER then
           (case new_expr TE_CONSTANT [] s of
              (None, s1) \<Rightarrow> (None, s1)
            | (Some ret, s1) \<Rightarrow> (Some (set_value ret (value_of (u s))), next_token s1))
         else if m = TOK_VARIABLE then
           (case new_expr TE_VARIABLE [] s of
              (None, s1) \<Rightarrow> (None, s1)
            | (Some ret, s1) \<Rightarrow> (Some (set_bound ret (pointer_of (u s))), next_token s1))
         else if m = TE_FUNCTION0 \<or> m = TE_CLOSURE0 then
           (case new_expr (type s) [] s of
              (None, s1) \<Rightarrow> (None, s1)
            | (Some ret, s1) \<Rightarrow>
                (let ret = set_function ret (pointer_of (u s));
                     ret = (if IS_CLOSURE (type s) then set_context ret (context s) else ret);
                     s2 = next_token s1
                 in if type s2 = TOK_OPEN then
                      (let s3 = next_token s2
                       in if type s3 \<noteq> TOK_CLOSE then (Some ret, s3\<lparr>type := TOK_ERROR\<rparr>)
                          else (Some ret, next_token s3))
                    else (Some ret, s2)))
         else if m = TE_FUNCTION1 \<or> m = TE_CLOSURE1 then
           (let f_type = type s; f_func = pointer_of (u s); f_context = context s
            in case power_te (next_token s) of
                 (None, s2) \<Rightarrow> (None, s2)
               | (Some p0, s2) \<Rightarrow>
                   (case new_expr f_type [p0] s2 of
                      (None, s3) \<Rightarrow> (None, s3)
                    | (Some ret, s3) \<Rightarrow>
                        (let ret = set_function ret f_func
                         in (Some (if IS_CLOSURE f_type then set_context ret f_context else ret),
                             s3))))
         else if (TE_FUNCTION2 \<le> m \<and> m \<le> TE_FUNCTION7) \<or> (TE_CLOSURE2 \<le> m \<and> m \<le> TE_CLOSURE7) then
           (let arity = ARITY (type s);
                f_type = type s; f_func = pointer_of (u s); f_context = context s;
                s1 = next_token s
            in if type s1 \<noteq> TOK_OPEN then (None, s1\<lparr>type := TOK_ERROR\<rparr>)
               else
                 (case base_loop arity 0 [] s1 of
                    (None, s2) \<Rightarrow> (None, s2)
                  | (Some (i, params), s2) \<Rightarrow>
                      if type s2 \<noteq> TOK_CLOSE \<or> i \<noteq> arity - 1 then
                        (None, s2\<lparr>type := TOK_ERROR,
                                  ub := (ub s2 \<or> int (length params) < ARITY f_type)\<rparr>)
                      else
                        (case new_expr f_type params (next_token s2) of
                           (None, s3) \<Rightarrow> (None, s3)
                         | (Some ret, s3) \<Rightarrow>
                             (let ret = set_function ret f_func
                              in (Some (if IS_CLOSURE f_type then set_context ret f_context
                                        else ret),
                                  s3)))))
         else if m = TOK_OPEN then
           (case list_te (next_token s) of
              (None, s2) \<Rightarrow> (None, s2)
            | (Some ret, s2) \<Rightarrow>
                if type s2 \<noteq> TOK_CLOSE then (Some ret, s2\<lparr>type := TOK_ERROR\<rparr>)
                else (Some ret, next_token s2))
         else
           (case new_expr 0 [] s of
              (None, s1) \<Rightarrow> (None, s1)
            | (Some ret, s1) \<Rightarrow> (Some (set_value ret NaN), s1\<lparr>type := TOK_ERROR\<rparr>)))"
| "base_loop arity i params s =
     (if i < arity then
        (case expr (next_token s) of
           (None, s2) \<Rightarrow> (None, s2)
         | (Some p, s2) \<Rightarrow>
             if type s2 \<noteq> TOK_SEP then (Some (i, params @ [p]), s2)
             else base_loop arity (i + 1) (params @ [p]) s2)
      else (Some (i, params), s))"
| "power_te s =
     (case power_signs 1 s of
        (sign, s1) \<Rightarrow>
          if sign = 1 then base s1
          else
            (case base s1 of
               (None, s2) \<Rightarrow> (None, s2)
             | (Some b, s2) \<Rightarrow>
                 (case new_expr (TE_FUNCTION1 OR TE_FLAG_PURE) [b] s2 of
                    (None, s3) \<Rightarrow> (None, s3)
                  | (Some ret, s3) \<Rightarrow> (Some (set_function ret (FunPtr ''negate'')), s3))))"
| "factor s =
     (case power_te s of
        (None, s1) \<Rightarrow> (None, s1)
      | (Some ret, s1) \<Rightarrow> factor_loop ret s1)"
| "factor_loop ret s =
     (if type s = TOK_INFIX \<and> pointer_of (u s) = ExtPtr ''pow'' then
        (let t = pointer_of (u s)
         in case power_te (next_token s) of
              (None, s2) \<Rightarrow> (None, s2)
            | (Some p, s2) \<Rightarrow>
                (case new_expr (TE_FUNCTION2 OR TE_FLAG_PURE) [ret, p] s2 of
                   (None, s3) \<Rightarrow> (None, s3)
                 | (Some ret', s3) \<Rightarrow> factor_loop (set_function ret' t) s3))
      else (Some ret, s))"
| "term_te s =
     (case factor s of
        (None, s1) \<Rightarrow> (None, s1)
      | (Some ret, s1) \<Rightarrow> term_loop ret s1)"
| "term_loop ret s =
     (if type s = TOK_INFIX
         \<and> (pointer_of (u s) = FunPtr ''mul'' \<or> pointer_of (u s) = FunPtr ''divide''
            \<or> pointer_of (u s) = ExtPtr ''fmod'')
      then
        (let t = pointer_of (u s)
         in case factor (next_token s) of
              (None, s2) \<Rightarrow> (None, s2)
            | (Some f, s2) \<Rightarrow>
                (case new_expr (TE_FUNCTION2 OR TE_FLAG_PURE) [ret, f] s2 of
                   (None, s3) \<Rightarrow> (None, s3)
                 | (Some ret', s3) \<Rightarrow> term_loop (set_function ret' t) s3))
      else (Some ret, s))"
| "expr s =
     (case term_te s of
        (None, s1) \<Rightarrow> (None, s1)
      | (Some ret, s1) \<Rightarrow> expr_loop ret s1)"
| "expr_loop ret s =
     (if type s = TOK_INFIX
         \<and> (pointer_of (u s) = FunPtr ''add'' \<or> pointer_of (u s) = FunPtr ''sub'')
      then
        (let t = pointer_of (u s)
         in case term_te (next_token s) of
              (None, s2) \<Rightarrow> (None, s2)
            | (Some te, s2) \<Rightarrow>
                (case new_expr (TE_FUNCTION2 OR TE_FLAG_PURE) [ret, te] s2 of
                   (None, s3) \<Rightarrow> (None, s3)
                 | (Some ret', s3) \<Rightarrow> expr_loop (set_function ret' t) s3))
      else (Some ret, s))"
| "list_te s =
     (case expr s of
        (None, s1) \<Rightarrow> (None, s1)
      | (Some ret, s1) \<Rightarrow> list_loop ret s1)"
| "list_loop ret s =
     (if type s = TOK_SEP then
        (case expr (next_token s) of
           (None, s2) \<Rightarrow> (None, s2)
         | (Some e, s2) \<Rightarrow>
             (case new_expr (TE_FUNCTION2 OR TE_FLAG_PURE) [ret, e] s2 of
                (None, s3) \<Rightarrow> (None, s3)
              | (Some ret', s3) \<Rightarrow> list_loop (set_function ret' (FunPtr ''comma'')) s3))
      else (Some ret, s))"
  by pat_completeness auto

abbreviation (input) parser_dom where
  "parser_dom \<equiv> base_base_loop_power_te_factor_factor_loop_term_te_term_loop_expr_expr_loop_list_te_list_loop_dom"

lemma new_expr_weight: "weight (snd (new_expr t ps s)) = weight s"
  by (simp add: new_expr_def malloc_def weight_def split: list.splits)

lemma new_expr_next: "next (snd (new_expr t ps s)) = next s"
  by (simp add: new_expr_def malloc_def split: list.splits)

lemma new_expr_type: "type (snd (new_expr t ps s)) = type s"
  by (simp add: new_expr_def malloc_def split: list.splits)

lemma power_signs_weight: "weight (snd (power_signs sign s)) \<le> weight s"
proof (induction sign s rule: power_signs.induct)
  case (1 sign s)
  show ?case
  proof (cases "type s = TOK_INFIX
         \<and> (pointer_of (u s) = FunPtr ''add'' \<or> pointer_of (u s) = FunPtr ''sub'')")
    case True
    have "weight (next_token s) \<le> weight s"
      using True next_token_weight [of s] by (simp add: weight_def)
    with 1 [OF True] True show ?thesis
      by (simp add: power_signs.simps [of sign s])
  next
    case False
    then show ?thesis
      by (auto simp: power_signs.simps [of sign s])
  qed
qed

lemma weight_heavy:
  "TYPE_MASK (type s) \<noteq> TOK_ERROR \<Longrightarrow> TYPE_MASK (type s) \<noteq> TOK_END \<Longrightarrow>
   TYPE_MASK (type s) \<noteq> TOK_NUMBER \<Longrightarrow> weight s = 2 * length (next s) + 2"
  by (auto simp: weight_def TYPE_MASK_def)

lemma weight_number:
  "TYPE_MASK (type s) = TOK_NUMBER \<Longrightarrow> 2 * length (next s) + 1 \<le> weight s"
  by (auto simp: weight_def TYPE_MASK_def)

lemma weight_le: "weight s \<le> 2 * length (next s) + 2"
  by (simp add: weight_def)

lemma weight_error: "weight (s\<lparr>type := TOK_ERROR\<rparr>) \<le> weight s"
  by (simp add: weight_def)

lemma parser_weight:
  "parser_dom (Inl (Inl (Inl s0))) \<Longrightarrow> weight (snd (base s0)) \<le> weight s0"
  "parser_dom (Inl (Inl (Inr (arity, i, params, s1)))) \<Longrightarrow>
     weight (snd (base_loop arity i params s1)) \<le> 2 * length (next s1) + 2"
  "parser_dom (Inl (Inr (Inl s2))) \<Longrightarrow> weight (snd (power_te s2)) \<le> weight s2"
  "parser_dom (Inl (Inr (Inr (Inl s3)))) \<Longrightarrow> weight (snd (factor s3)) \<le> weight s3"
  "parser_dom (Inl (Inr (Inr (Inr (r4, s4))))) \<Longrightarrow> weight (snd (factor_loop r4 s4)) \<le> weight s4"
  "parser_dom (Inr (Inl (Inl s5))) \<Longrightarrow> weight (snd (term_te s5)) \<le> weight s5"
  "parser_dom (Inr (Inl (Inr (Inl (r6, s6))))) \<Longrightarrow> weight (snd (term_loop r6 s6)) \<le> weight s6"
  "parser_dom (Inr (Inl (Inr (Inr s7)))) \<Longrightarrow> weight (snd (expr s7)) \<le> weight s7"
  "parser_dom (Inr (Inr (Inl (r8, s8)))) \<Longrightarrow> weight (snd (expr_loop r8 s8)) \<le> weight s8"
  "parser_dom (Inr (Inr (Inr (Inl s9)))) \<Longrightarrow> weight (snd (list_te s9)) \<le> weight s9"
  "parser_dom (Inr (Inr (Inr (Inr (r10, s10))))) \<Longrightarrow> weight (snd (list_loop r10 s10)) \<le> weight s10"
proof (induct rule: base_base_loop_power_te_factor_factor_loop_term_te_term_loop_expr_expr_loop_list_te_list_loop.pinduct)
  case (1 s)
  note dom = 1(1)
  let ?m = "TYPE_MASK (type s)"
  have nt: "\<And>x. weight (next_token x) \<le> 2 * length (next x) + 1"
    by (rule next_token_weight)
  have ne: "\<And>t ps x. weight (snd (new_expr t ps x)) = weight x"
    by (rule new_expr_weight)
  have nn: "\<And>t ps x. next (snd (new_expr t ps x)) = next x"
    by (rule new_expr_next)
  consider (num) "?m = 30" | (var) "?m = 31" | (f0) "?m = 8 \<or> ?m = 16"
    | (f1) "?m = 9 \<or> ?m = 17"
    | (fn) "10 \<le> ?m \<and> ?m \<le> 15 \<or> 18 \<le> ?m \<and> ?m \<le> 23"
    | (opn) "?m = 28"
    | (other) "?m \<noteq> 30" "?m \<noteq> 31" "\<not> (?m = 8 \<or> ?m = 16)" "\<not> (?m = 9 \<or> ?m = 17)"
        "\<not> (10 \<le> ?m \<and> ?m \<le> 15 \<or> 18 \<le> ?m \<and> ?m \<le> 23)" "?m \<noteq> 28"
    by blast
  then show ?case
  proof cases
    case num
    obtain r s1 where n: "new_expr TE_CONSTANT [] s = (r, s1)"
      by (cases "new_expr TE_CONSTANT [] s")
    from n ne [of TE_CONSTANT "[]" s] nn [of TE_CONSTANT "[]" s]
    have "weight s1 = weight s" "next s1 = next s" by simp_all
    with num n nt [of s1] weight_number [OF num] show ?thesis
      by (cases r) (simp_all add: base.psimps [OF dom])
  next
    case var
    then have heavy: "weight s = 2 * length (next s) + 2"
      by (intro weight_heavy) simp_all
    obtain r s1 where n: "new_expr TE_VARIABLE [] s = (r, s1)"
      by (cases "new_expr TE_VARIABLE [] s")
    from n ne [of TE_VARIABLE "[]" s] nn [of TE_VARIABLE "[]" s]
    have "weight s1 = weight s" "next s1 = next s" by simp_all
    with var n nt [of s1] heavy show ?thesis
      by (cases r) (simp_all add: base.psimps [OF dom])
  next
    case f0
    then have heavy: "weight s = 2 * length (next s) + 2"
      by (intro weight_heavy) auto
    obtain r s1 where n: "new_expr (type s) [] s = (r, s1)"
      by (cases "new_expr (type s) [] s")
    from n ne [of "type s" "[]" s] nn [of "type s" "[]" s]
    have s1: "weight s1 = weight s" "next s1 = next s" by simp_all
    have a: "weight (next_token s1) < weight s"
      using nt [of s1] s1 heavy by simp
    have b: "weight (next_token (next_token s1)) \<le> weight (next_token s1) + 1"
      using nt [of "next_token s1"] by (simp add: weight_def)
    have c: "type (next_token s1) = TOK_OPEN \<Longrightarrow> weight (next_token (next_token s1)) < weight (next_token s1)"
      using nt [of "next_token s1"] by (simp add: weight_def)
    have d: "type (next_token (next_token s1)) = TOK_CLOSE \<Longrightarrow>
        weight (next_token (next_token (next_token s1))) < weight (next_token (next_token s1))"
      using nt [of "next_token (next_token s1)"] by (simp add: weight_def)
    have e: "weight ((next_token (next_token s1))\<lparr>type := TOK_ERROR\<rparr>) \<le> weight (next_token (next_token s1))"
      by (rule weight_error)
    from f0 n s1 a c d e show ?thesis
      by (cases r) (auto simp: base.psimps [OF dom] Let_def)
  next
    case f1
    then have heavy: "weight s = 2 * length (next s) + 2"
      by (intro weight_heavy) auto
    have ih: "weight (snd (power_te (next_token s))) \<le> weight (next_token s)"
      using 1(2) f1 by auto
    obtain p s2 where c: "power_te (next_token s) = (p, s2)"
      by (cases "power_te (next_token s)")
    with ih nt [of s] heavy have w2: "weight s2 < weight s" by simp
    show ?thesis
    proof (cases p)
      case None
      with f1 c w2 show ?thesis
        by (auto simp: base.psimps [OF dom] Let_def)
    next
      case (Some p0)
      obtain r s3 where n: "new_expr (type s) [p0] s2 = (r, s3)"
        by (cases "new_expr (type s) [p0] s2")
      with ne [of "type s" "[p0]" s2] have "weight s3 = weight s2" by simp
      with f1 c Some n w2 show ?thesis
        by (cases r) (auto simp: base.psimps [OF dom] Let_def)
    qed
  next
    case fn
    then have heavy: "weight s = 2 * length (next s) + 2"
      by (intro weight_heavy) auto
    from fn have not_others: "?m \<noteq> 30" "?m \<noteq> 31" "\<not> (?m = 8 \<or> ?m = 16)" "\<not> (?m = 9 \<or> ?m = 17)"
      by auto
    let ?s1 = "next_token s"
    have w1: "weight ?s1 < weight s"
      using nt [of s] heavy by simp
    show ?thesis
    proof (cases "type ?s1 = TOK_OPEN")
      case False
      with fn not_others w1 weight_error [of ?s1] show ?thesis
        by (simp add: base.psimps [OF dom] Let_def)
    next
      case True
      have ih: "weight (snd (base_loop (ARITY (type s)) 0 [] ?s1)) \<le> 2 * length (next ?s1) + 2"
        using 1(3) fn not_others True by simp
      obtain a s2 where c: "base_loop (ARITY (type s)) 0 [] ?s1 = (a, s2)"
        by (cases "base_loop (ARITY (type s)) 0 [] ?s1")
      from True have "weight ?s1 = 2 * length (next ?s1) + 2"
        by (simp add: weight_def)
      with ih c w1 have w2: "weight s2 < weight s" by simp
      show ?thesis
      proof (cases a)
        case None
        with fn not_others True c w2 show ?thesis
          by (simp add: base.psimps [OF dom] Let_def)
      next
        case (Some ip)
        obtain i params where ip: "ip = (i, params)" by (cases ip)
        show ?thesis
        proof (cases "type s2 \<noteq> TOK_CLOSE \<or> i \<noteq> ARITY (type s) - 1")
          case bad: True
          have "weight (s2\<lparr>type := TOK_ERROR, ub := (ub s2 \<or> int (length params) < ARITY (type s))\<rparr>) \<le> weight s2"
            by (simp add: weight_def)
          with fn not_others True c Some ip bad w2 show ?thesis
            by (simp add: base.psimps [OF dom] Let_def)
        next
          case good: False
          then have "weight (next_token s2) < weight s2"
            using nt [of s2] by (simp add: weight_def)
          moreover obtain r s3 where n: "new_expr (type s) params (next_token s2) = (r, s3)"
            by (cases "new_expr (type s) params (next_token s2)")
          moreover from n ne [of "type s" params "next_token s2"]
          have "weight s3 = weight (next_token s2)" by simp
          ultimately show ?thesis
            using fn not_others True c Some ip good w2
            by (cases r) (simp_all add: base.psimps [OF dom] Let_def)
        qed
      qed
    qed
  next
    case opn
    then have heavy: "weight s = 2 * length (next s) + 2"
      by (intro weight_heavy) auto
    have ih: "weight (snd (list_te (next_token s))) \<le> weight (next_token s)"
      using 1(4) opn by simp
    obtain p s2 where c: "list_te (next_token s) = (p, s2)"
      by (cases "list_te (next_token s)")
    with ih nt [of s] heavy have w2: "weight s2 < weight s" by simp
    have "type s2 = TOK_CLOSE \<Longrightarrow> weight (next_token s2) < weight s2"
      using nt [of s2] by (simp add: weight_def)
    with opn c w2 weight_error [of s2] show ?thesis
      by (cases p) (auto simp: base.psimps [OF dom] Let_def)
  next
    case other
    obtain r s1 where n: "new_expr 0 [] s = (r, s1)"
      by (cases "new_expr 0 [] s")
    from n ne [of 0 "[]" s] have "weight s1 = weight s" by simp
    with other n weight_error [of s1] show ?thesis
      by (cases r) (auto simp: base.psimps [OF dom] Let_def)
  qed
next
  case (2 arity i params s)
  note dom = 2(1)
  show ?case
  proof (cases "i < arity")
    case False
    then show ?thesis
      using weight_le [of s] by (simp add: base_loop.psimps [OF dom])
  next
    case True
    obtain p s2 where c: "expr (next_token s) = (p, s2)"
      by (cases "expr (next_token s)")
    have "weight (snd (expr (next_token s))) \<le> weight (next_token s)"
      using 2(2) True by simp
    with c next_token_weight [of s] have w2: "weight s2 \<le> 2 * length (next s) + 1"
      by simp
    show ?thesis
    proof (cases p)
      case None
      with True c w2 show ?thesis
        by (simp add: base_loop.psimps [OF dom])
    next
      case (Some q)
      show ?thesis
      proof (cases "type s2 \<noteq> TOK_SEP")
        case stop: True
        with True c Some w2 show ?thesis
          by (simp add: base_loop.psimps [OF dom])
      next
        case more: False
        then have "weight s2 = 2 * length (next s2) + 2"
          by (simp add: weight_def)
        moreover have "weight (snd (base_loop arity (i + 1) (params @ [q]) s2)) \<le> 2 * length (next s2) + 2"
          using 2(3) True c [symmetric] Some more by simp
        ultimately show ?thesis
          using True c Some more w2 by (simp add: base_loop.psimps [OF dom])
      qed
    qed
  qed
next
  case (3 s)
  note dom = 3(1)
  obtain sign s1 where sg: "power_signs 1 s = (sign, s1)"
    by (cases "power_signs 1 s")
  have w1: "weight s1 \<le> weight s"
    using power_signs_weight [of 1 s] sg by simp
  show ?case
  proof (cases "sign = 1")
    case True
    have "weight (snd (base s1)) \<le> weight s1"
      using 3(2) sg [symmetric] True by simp
    with sg True w1 show ?thesis
      by (simp add: power_te.psimps [OF dom])
  next
    case False
    have ih: "weight (snd (base s1)) \<le> weight s1"
      using 3(3) sg [symmetric] False by simp
    obtain b s2 where c: "base s1 = (b, s2)"
      by (cases "base s1")
    with ih w1 have w2: "weight s2 \<le> weight s" by simp
    show ?thesis
    proof (cases b)
      case None
      with sg False c w2 show ?thesis
        by (simp add: power_te.psimps [OF dom])
    next
      case (Some q)
      obtain r s3 where n: "new_expr (TE_FUNCTION1 OR TE_FLAG_PURE) [q] s2 = (r, s3)"
        by (cases "new_expr (TE_FUNCTION1 OR TE_FLAG_PURE) [q] s2")
      with new_expr_weight [of "TE_FUNCTION1 OR TE_FLAG_PURE" "[q]" s2]
      have "weight s3 = weight s2" by simp
      with sg False c Some n w2 show ?thesis
        by (cases r) (simp_all add: power_te.psimps [OF dom])
    qed
  qed
next
  case (4 s)
  note dom = 4(1)
  obtain p s1 where c: "power_te s = (p, s1)"
    by (cases "power_te s")
  have w1: "weight s1 \<le> weight s"
    using 4(2) c by simp
  show ?case
  proof (cases p)
    case None
    with c w1 show ?thesis
      by (simp add: factor.psimps [OF dom])
  next
    case (Some ret)
    have "weight (snd (factor_loop ret s1)) \<le> weight s1"
      using 4(3) c [symmetric] Some by simp
    with c Some w1 show ?thesis
      by (simp add: factor.psimps [OF dom])
  qed
next
  case (5 ret s)
  note dom = 5(1)
  show ?case
  proof (cases "type s = TOK_INFIX \<and> pointer_of (u s) = ExtPtr ''pow''")
    case False
    then show ?thesis
      by (auto simp: factor_loop.psimps [OF dom])
  next
    case True
    then have heavy: "weight s = 2 * length (next s) + 2"
      by (simp add: weight_def)
    obtain p s2 where c: "power_te (next_token s) = (p, s2)"
      by (cases "power_te (next_token s)")
    have "weight (snd (power_te (next_token s))) \<le> weight (next_token s)"
      using 5(2) True by simp
    with c next_token_weight [of s] heavy have w2: "weight s2 < weight s"
      by simp
    show ?thesis
    proof (cases p)
      case None
      with True c w2 show ?thesis
        by (simp add: factor_loop.psimps [OF dom])
    next
      case (Some q)
      obtain r s3 where n: "new_expr (TE_FUNCTION2 OR TE_FLAG_PURE) [ret, q] s2 = (r, s3)"
        by (cases "new_expr (TE_FUNCTION2 OR TE_FLAG_PURE) [ret, q] s2")
      have w3: "weight s3 = weight s2"
        using new_expr_weight [of "TE_FUNCTION2 OR TE_FLAG_PURE" "[ret, q]" s2] n by simp
      show ?thesis
      proof (cases r)
        case None
        with True c Some n w2 w3 show ?thesis
          by (simp add: factor_loop.psimps [OF dom])
      next
        case node: (Some ret')
        have "weight (snd (factor_loop (set_function ret' (pointer_of (u s))) s3)) \<le> weight s3"
          using 5(3) True c [symmetric] Some n [symmetric] node by simp
        with True c Some n node w2 w3 show ?thesis
          by (simp add: factor_loop.psimps [OF dom])
      qed
    qed
  qed
next
  case (6 s)
  note dom = 6(1)
  obtain p s1 where c: "factor s = (p, s1)"
    by (cases "factor s")
  have w1: "weight s1 \<le> weight s"
    using 6(2) c by simp
  show ?case
  proof (cases p)
    case None
    with c w1 show ?thesis
      by (simp add: term_te.psimps [OF dom])
  next
    case (Some ret)
    have "weight (snd (term_loop ret s1)) \<le> weight s1"
      using 6(3) c [symmetric] Some by simp
    with c Some w1 show ?thesis
      by (simp add: term_te.psimps [OF dom])
  qed
next
  case (7 ret s)
  note dom = 7(1)
  show ?case
  proof (cases "type s = TOK_INFIX \<and> (pointer_of (u s) = FunPtr ''mul'' \<or> pointer_of (u s) = FunPtr ''divide'' \<or> pointer_of (u s) = ExtPtr ''fmod'')")
    case False
    then show ?thesis
      by (auto simp: term_loop.psimps [OF dom])
  next
    case True
    then have heavy: "weight s = 2 * length (next s) + 2"
      by (simp add: weight_def)
    obtain p s2 where c: "factor (next_token s) = (p, s2)"
      by (cases "factor (next_token s)")
    have "weight (snd (factor (next_token s))) \<le> weight (next_token s)"
      using 7(2) True by simp
    with c next_token_weight [of s] heavy have w2: "weight s2 < weight s"
      by simp
    show ?thesis
    proof (cases p)
      case None
      with True c w2 show ?thesis
        by (simp add: term_loop.psimps [OF dom])
    next
      case (Some q)
      obtain r s3 where n: "new_expr (TE_FUNCTION2 OR TE_FLAG_PURE) [ret, q] s2 = (r, s3)"
        by (cases "new_expr (TE_FUNCTION2 OR TE_FLAG_PURE) [ret, q] s2")
      have w3: "weight s3 = weight s2"
        using new_expr_weight [of "TE_FUNCTION2 OR TE_FLAG_PURE" "[ret, q]" s2] n by simp
      show ?thesis
      proof (cases r)
        case None
        with True c Some n w2 w3 show ?thesis
          by (simp add: term_loop.psimps [OF dom])
      next
        case node: (Some ret')
        have "weight (snd (term_loop (set_function ret' (pointer_of (u s))) s3)) \<le> weight s3"
          using 7(3) True c [symmetric] Some n [symmetric] node by simp
        with True c Some n node w2 w3 show ?thesis
          by (simp add: term_loop.psimps [OF dom])
      qed
    qed
  qed
next
  case (8 s)
  note dom = 8(1)
  obtain p s1 where c: "term_te s = (p, s1)"
    by (cases "term_te s")
  have w1: "weight s1 \<le> weight s"
    using 8(2) c by simp
  show ?case
  proof (cases p)
    case None
    with c w1 show ?thesis
      by (simp add: expr.psimps [OF dom])
  next
    case (Some ret)
    have "weight (snd (expr_loop ret s1)) \<le> weight s1"
      using 8(3) c [symmetric] Some by simp
    with c Some w1 show ?thesis
      by (simp add: expr.psimps [OF dom])
  qed
next
  case (9 ret s)
  note dom = 9(1)
  show ?case
  proof (cases "type s = TOK_INFIX \<and> (pointer_of (u s) = FunPtr ''add'' \<or> pointer_of (u s) = FunPtr ''sub'')")
    case False
    then show ?thesis
      by (auto simp: expr_loop.psimps [OF dom])
  next
    case True
    then have heavy: "weight s = 2 * length (next s) + 2"
      by (simp add: weight_def)
    obtain p s2 where c: "term_te (next_token s) = (p, s2)"
      by (cases "term_te (next_token s)")
    have "weight (snd (term_te (next_token s))) \<le> weight (next_token s)"
      using 9(2) True by simp
    with c next_token_weight [of s] heavy have w2: "weight s2 < weight s"
      by simp
    show ?thesis
    proof (cases p)
      case None
      with True c w2 show ?thesis
        by (simp add: expr_loop.psimps [OF dom])
    next
      case (Some q)
      obtain r s3 where n: "new_expr (TE_FUNCTION2 OR TE_FLAG_PURE) [ret, q] s2 = (r, s3)"
        by (cases "new_expr (TE_FUNCTION2 OR TE_FLAG_PURE) [ret, q] s2")
      have w3: "weight s3 = weight s2"
        using new_expr_weight [of "TE_FUNCTION2 OR TE_FLAG_PURE" "[ret, q]" s2] n by simp
      show ?thesis
      proof (cases r)
        case None
        with True c Some n w2 w3 show ?thesis
          by (simp add: expr_loop.psimps [OF dom])
      next
        case node: (Some ret')
        have "weight (snd (expr_loop (set_function ret' (pointer_of (u s))) s3)) \<le> weight s3"
          using 9(3) True c [symmetric] Some n [symmetric] node by simp
        with True c Some n node w2 w3 show ?thesis
          by (simp add: expr_loop.psimps [OF dom])
      qed
    qed
  qed
next
  case (10 s)
  note dom = 10(1)
  obtain p s1 where c: "expr s = (p, s1)"
    by (cases "expr s")
  have w1: "weight s1 \<le> weight s"
    using 10(2) c by simp
  show ?case
  proof (cases p)
    case None
    with c w1 show ?thesis
      by (simp add: list_te.psimps [OF dom])
  next
    case (Some ret)
    have "weight (snd (list_loop ret s1)) \<le> weight s1"
      using 10(3) c [symmetric] Some by simp
    with c Some w1 show ?thesis
      by (simp add: list_te.psimps [OF dom])
  qed
next
  case (11 ret s)
  note dom = 11(1)
  show ?case
  proof (cases "type s = TOK_SEP")
    case False
    then show ?thesis
      by (auto simp: list_loop.psimps [OF dom])
  next
    case True
    then have heavy: "weight s = 2 * length (next s) + 2"
      by (simp add: weight_def)
    obtain p s2 where c: "expr (next_token s) = (p, s2)"
      by (cases "expr (next_token s)")
    have "weight (snd (expr (next_token s))) \<le> weight (next_token s)"
      using 11(2) True by simp
    with c next_token_weight [of s] heavy have w2: "weight s2 < weight s"
      by simp
    show ?thesis
    proof (cases p)
      case None
      with True c w2 show ?thesis
        by (simp add: list_loop.psimps [OF dom])
    next
      case (Some q)
      obtain r s3 where n: "new_expr (TE_FUNCTION2 OR TE_FLAG_PURE) [ret, q] s2 = (r, s3)"
        by (cases "new_expr (TE_FUNCTION2 OR TE_FLAG_PURE) [ret, q] s2")
      have w3: "weight s3 = weight s2"
        using new_expr_weight [of "TE_FUNCTION2 OR TE_FLAG_PURE" "[ret, q]" s2] n by simp
      show ?thesis
      proof (cases r)
        case None
        with True c Some n w2 w3 show ?thesis
          by (simp add: list_loop.psimps [OF dom])
      next
        case node: (Some ret')
        have "weight (snd (list_loop (set_function ret' (FunPtr ''comma'')) s3)) \<le> weight s3"
          using 11(3) True c [symmetric] Some n [symmetric] node by simp
        with True c Some n node w2 w3 show ?thesis
          by (simp add: list_loop.psimps [OF dom])
      qed
    qed
  qed
qed

lemma next_token_less:
  "TYPE_MASK (type s) \<noteq> TOK_ERROR \<Longrightarrow> TYPE_MASK (type s) \<noteq> TOK_END \<Longrightarrow>
   TYPE_MASK (type s) \<noteq> TOK_NUMBER \<Longrightarrow> weight (next_token s) < weight s"
  using next_token_weight [of s] weight_heavy [of s] by simp

lemma next_token_bound: "type s = t \<Longrightarrow> weight (next_token s) < 2 * length (next s) + 2"
  using next_token_weight [of s] by simp

lemma new_expr_weight_eq: "(r, s') = new_expr t ps s \<Longrightarrow> weight s' = weight s"
  using new_expr_weight [of t ps s] by (cases "new_expr t ps s") simp

lemma power_signs_weight_eq: "(sign, s') = power_signs k s \<Longrightarrow> weight s' \<le> weight s"
  using power_signs_weight [of k s] by (cases "power_signs k s") simp

lemma parser_weight_eq:
  "parser_dom (Inl (Inr (Inl s))) \<Longrightarrow> (r, s') = power_te s \<Longrightarrow> weight s' \<le> weight s"
  "parser_dom (Inl (Inr (Inr (Inl s)))) \<Longrightarrow> (r, s') = factor s \<Longrightarrow> weight s' \<le> weight s"
  "parser_dom (Inr (Inl (Inl s))) \<Longrightarrow> (r, s') = term_te s \<Longrightarrow> weight s' \<le> weight s"
  "parser_dom (Inr (Inl (Inr (Inr s)))) \<Longrightarrow> (r, s') = expr s \<Longrightarrow> weight s' \<le> weight s"
  using parser_weight(3) [of s] parser_weight(4) [of s] parser_weight(6) [of s]
    parser_weight(8) [of s]
  by (cases "power_te s", simp, cases "factor s", simp, cases "term_te s", simp,
      cases "expr s", simp)

lemma parser_total: "All parser_dom"
  apply (relation "measure (\<lambda>x. case x of
       Inl (Inl (Inl s)) \<Rightarrow> 16 * weight s + 1
     | Inl (Inl (Inr (arity, i, params, s))) \<Rightarrow> 16 * (2 * length (next s) + 2)
     | Inl (Inr (Inl s)) \<Rightarrow> 16 * weight s + 2
     | Inl (Inr (Inr (Inl s))) \<Rightarrow> 16 * weight s + 4
     | Inl (Inr (Inr (Inr (ret, s)))) \<Rightarrow> 16 * weight s + 3
     | Inr (Inl (Inl s)) \<Rightarrow> 16 * weight s + 6
     | Inr (Inl (Inr (Inl (ret, s)))) \<Rightarrow> 16 * weight s + 5
     | Inr (Inl (Inr (Inr s))) \<Rightarrow> 16 * weight s + 8
     | Inr (Inr (Inl (ret, s))) \<Rightarrow> 16 * weight s + 7
     | Inr (Inr (Inr (Inl s))) \<Rightarrow> 16 * weight s + 10
     | Inr (Inr (Inr (Inr (ret, s)))) \<Rightarrow> 16 * weight s + 9)")
  apply simp
  apply (simp_all only: in_measure sum.case prod.case)
  subgoal for s
    using next_token_less [of s] by auto
  subgoal for s
    using next_token_less [of s] by (auto simp: weight_def)
  subgoal for s
    using next_token_less [of s] by auto
  subgoal for arity i params s
    using next_token_weight [of s] by simp
  subgoal for arity i params s x y
    apply (frule parser_weight_eq(4), assumption)
    using next_token_weight [of s]
    apply (simp add: weight_def)
    done
  subgoal
    by (drule power_signs_weight_eq) simp
  subgoal
    by (drule power_signs_weight_eq) simp
  subgoal
    apply (frule parser_weight_eq(1), assumption)
    apply simp
    done
  subgoal for ret s
    using next_token_weight [of s]
    by (simp add: weight_def)
  subgoal for ret s
    apply (frule parser_weight_eq(1), assumption)
    apply (drule new_expr_weight_eq)
    using next_token_weight [of s]
    apply (simp add: weight_def)
    done
  subgoal
    apply (frule parser_weight_eq(2), assumption)
    apply simp
    done
  subgoal for ret s
    using next_token_weight [of s]
    by (simp add: weight_def)
  subgoal for ret s
    apply (frule parser_weight_eq(2), assumption)
    apply (drule new_expr_weight_eq)
    using next_token_weight [of s]
    apply (simp add: weight_def)
    done
  subgoal
    apply (frule parser_weight_eq(3), assumption)
    apply simp
    done
  subgoal for ret s
    using next_token_weight [of s]
    by (simp add: weight_def)
  subgoal for ret s
    apply (frule parser_weight_eq(3), assumption)
    apply (drule new_expr_weight_eq)
    using next_token_weight [of s]
    apply (simp add: weight_def)
    done
  subgoal
    apply (frule parser_weight_eq(4), assumption)
    apply simp
    done
  subgoal for ret s
    using next_token_weight [of s]
    by (simp add: weight_def)
  subgoal for ret s
    apply (frule parser_weight_eq(4), assumption)
    apply (drule new_expr_weight_eq)
    using next_token_weight [of s]
    apply (simp add: weight_def)
    done
  done


termination base
  by (rule parser_total)

declare base.simps [simp del] base_loop.simps [simp del] power_te.simps [simp del]
  factor.simps [simp del] factor_loop.simps [simp del] term_te.simps [simp del]
  term_loop.simps [simp del] expr.simps [simp del] expr_loop.simps [simp del]
  list_te.simps [simp del] list_loop.simps [simp del]


section \<open>The evaluator\<close>

text \<open>The arithmetic of C on \<open>double\<close>, on the values of the model.\<close>

fun uminus_double :: "double \<Rightarrow> double" where
  "uminus_double (Fin x) = Fin (- x)"
| "uminus_double PInf = NInf"
| "uminus_double NInf = PInf"
| "uminus_double NaN = NaN"

fun plus_double :: "double \<Rightarrow> double \<Rightarrow> double" where
  "plus_double NaN b = NaN"
| "plus_double a NaN = NaN"
| "plus_double (Fin x) (Fin y) = Fin (x + y)"
| "plus_double PInf NInf = NaN"
| "plus_double NInf PInf = NaN"
| "plus_double PInf b = PInf"
| "plus_double NInf b = NInf"
| "plus_double a PInf = PInf"
| "plus_double a NInf = NInf"

fun times_double :: "double \<Rightarrow> double \<Rightarrow> double" where
  "times_double NaN b = NaN"
| "times_double a NaN = NaN"
| "times_double (Fin x) (Fin y) = Fin (x * y)"
| "times_double (Fin x) PInf = (if x = 0 then NaN else if 0 < x then PInf else NInf)"
| "times_double (Fin x) NInf = (if x = 0 then NaN else if 0 < x then NInf else PInf)"
| "times_double PInf (Fin y) = (if y = 0 then NaN else if 0 < y then PInf else NInf)"
| "times_double NInf (Fin y) = (if y = 0 then NaN else if 0 < y then NInf else PInf)"
| "times_double PInf PInf = PInf"
| "times_double PInf NInf = NInf"
| "times_double NInf PInf = NInf"
| "times_double NInf NInf = PInf"

fun divide_double :: "double \<Rightarrow> double \<Rightarrow> double" where
  "divide_double NaN b = NaN"
| "divide_double a NaN = NaN"
| "divide_double (Fin x) (Fin y) =
     (if y = 0 then (if x = 0 then NaN else if 0 < x then PInf else NInf) else Fin (x / y))"
| "divide_double (Fin x) b = Fin 0"
| "divide_double PInf (Fin y) = (if 0 \<le> y then PInf else NInf)"
| "divide_double NInf (Fin y) = (if 0 \<le> y then NInf else PInf)"
| "divide_double a b = NaN"

text \<open>The static functions of \<open>tinyexpr.c\<close> the parser refers to; \<open>sub\<close> and \<open>divide\<close> are names
  of HOL, and all six carry the suffix \<open>_te\<close>.\<close>

definition add_te :: "double \<Rightarrow> double \<Rightarrow> double" where
  "add_te a b = plus_double a b"

definition sub_te :: "double \<Rightarrow> double \<Rightarrow> double" where
  "sub_te a b = plus_double a (uminus_double b)"

definition mul_te :: "double \<Rightarrow> double \<Rightarrow> double" where
  "mul_te a b = times_double a b"

definition divide_te :: "double \<Rightarrow> double \<Rightarrow> double" where
  "divide_te a b = divide_double a b"

definition negate_te :: "double \<Rightarrow> double" where
  "negate_te a = uminus_double a"

definition comma_te :: "double \<Rightarrow> double \<Rightarrow> double" where
  "comma_te a b = b"

text \<open>
  What evaluation takes from outside \<open>tinyexpr.c\<close>: \<open>deref\<close> reads the caller's \<open>double\<close> at
  an address, and \<open>extern\<close> is the result of a function that is not modelled here, given
  its name, the context pointer when it is called as a closure, and its arguments.
  These are the functions of \<open>math.h\<close> and of the caller, and also \<open>pi\<close>, \<open>e\<close>, \<open>fac\<close>, \<open>ncr\<close>
  and \<open>npr\<close>, whose results depend on the rounding of \<open>double\<close> and on the widths of
  \<open>unsigned int\<close> and \<open>unsigned long\<close>.
\<close>

record environment =
  deref :: "nat \<Rightarrow> double"
  extern :: "string \<Rightarrow> nat option \<Rightarrow> double list \<Rightarrow> double"

text \<open>The call \<open>((te_funN) n->function)(...)\<close> or \<open>((te_cloN) n->function)(context, ...)\<close>.\<close>

fun call :: "environment \<Rightarrow> ptr \<Rightarrow> nat option \<Rightarrow> double list \<Rightarrow> double" where
  "call env (FunPtr f) None [a, b] =
     (if f = ''add'' then add_te a b
      else if f = ''sub'' then sub_te a b
      else if f = ''mul'' then mul_te a b
      else if f = ''divide'' then divide_te a b
      else if f = ''comma'' then comma_te a b
      else extern env f None [a, b])"
| "call env (FunPtr f) None [a] =
     (if f = ''negate'' then negate_te a else extern env f None [a])"
| "call env (FunPtr f) ctx args = extern env f ctx args"
| "call env (ExtPtr f) ctx args = extern env f ctx args"
| "call env p ctx args = NaN"

text \<open>
  \<open>te_eval\<close> on a node.  The arguments of a call are the values of the first \<open>ARITY\<close>
  children; a slot that holds no child is a null pointer, whose value is NaN.
\<close>

fun te_eval_node :: "environment \<Rightarrow> te_expr \<Rightarrow> double" where
  "te_eval_node env (Node t w ps c) =
     (let m = TYPE_MASK t;
          args = take (nat (ARITY t)) (map (te_eval_node env) ps @ replicate (nat (ARITY t)) NaN)
      in if m = TE_CONSTANT then value_of w
         else if m = TE_VARIABLE then
           (case pointer_of w of DoublePtr a \<Rightarrow> deref env a | _ \<Rightarrow> NaN)
         else if TE_FUNCTION0 \<le> m \<and> m \<le> TE_FUNCTION7 then call env (pointer_of w) None args
         else if TE_CLOSURE0 \<le> m \<and> m \<le> TE_CLOSURE7 then call env (pointer_of w) (Some c) args
         else NaN)"

declare te_eval_node.simps [simp del]

definition te_eval :: "environment \<Rightarrow> te_expr option \<Rightarrow> double" where
  "te_eval env n = (case n of None \<Rightarrow> NaN | Some e \<Rightarrow> te_eval_node env e)"

section \<open>The optimizer\<close>

text \<open>
  \<open>optimize\<close> updates the node in place; the model returns the node as it is afterwards.
  A folded node keeps no children (\<open>te_free_parameters\<close>).  The children visited are
  those the node holds, at most \<open>ARITY\<close> many.
\<close>

fun optimize :: "environment \<Rightarrow> te_expr \<Rightarrow> te_expr" where
  "optimize env (Node t w ps c) =
     (if t = TE_CONSTANT then Node t w ps c
      else if t = TE_VARIABLE then Node t w ps c
      else if IS_PURE t then
        (let ps' = map (optimize env) ps;
             known = list_all (\<lambda>p. node_type p = TE_CONSTANT) (take (nat (ARITY t)) ps')
         in if known then
              Node TE_CONSTANT (Value (te_eval_node env (Node t w ps' c))) [] c
            else Node t w ps' c)
      else Node t w ps c)"

declare optimize.simps [simp del]

section \<open>The interface\<close>

text \<open>The result of a call: what it returns, unless the execution passed an
  indeterminate pointer to \<open>te_free\<close>, after which C defines nothing.\<close>

datatype 'a outcome = Undefined | Returned 'a

text \<open>
  \<open>te_compile\<close> returns the tree and the value it stores through \<open>error\<close>.  \<open>mallocs\<close> lists
  the outcomes of the calls of \<open>malloc\<close> (see \<open>heap\<close>).  \<open>initial_state\<close> is the cursor after
  the assignments that open \<open>te_compile\<close>; the fields they leave unset are read by no
  path before \<open>next_token\<close> has written them.
\<close>

definition initial_state :: "bool list \<Rightarrow> string \<Rightarrow> te_variable list option \<Rightarrow> nat \<Rightarrow> state" where
  "initial_state mallocs expression variables var_count =
     \<lparr>start = expression, next = expression, type = TOK_NULL, u = Bound NULL,
      context = 0, lookup = variables, lookup_len = var_count,
      heap = mallocs, ub = False\<rparr>"

definition te_compile ::
  "environment \<Rightarrow> bool list \<Rightarrow> string \<Rightarrow> te_variable list option \<Rightarrow> nat
     \<Rightarrow> (te_expr option \<times> int) outcome" where
  "te_compile env mallocs expression variables var_count =
     (let s = initial_state mallocs expression variables var_count;
          (root, s) = list_te (next_token s)
      in if ub s then Undefined
         else
           (case root of
              None \<Rightarrow> Returned (None, - 1)
            | Some r \<Rightarrow>
                if type s \<noteq> TOK_END then
                  (let error = int (length (start s) - length (next s))
                   in Returned (None, if error = 0 then 1 else error))
                else Returned (Some (optimize env r), 0)))"

text \<open>\<open>te_interp\<close> returns the value and what \<open>te_compile\<close> stored through \<open>error\<close>.\<close>

definition te_interp :: "environment \<Rightarrow> bool list \<Rightarrow> string \<Rightarrow> (double \<times> int) outcome" where
  "te_interp env mallocs expression =
     (case te_compile env mallocs expression None 0 of
        Undefined \<Rightarrow> Undefined
      | Returned (n, error) \<Rightarrow>
          (case n of
             None \<Rightarrow> Returned (NaN, error)
           | Some e \<Rightarrow> Returned (te_eval env (Some e), error)))"


text \<open>An environment for the examples: every read of a variable and every function
  that is not modelled yields NaN.\<close>

definition env0 :: environment where
  "env0 = \<lparr>deref = (\<lambda>a. NaN), extern = (\<lambda>f c xs. NaN)\<rparr>"

section \<open>Claims\<close>

text \<open>
  Claim C10.  Evaluating an absent tree is total and yields NaN: \<open>te_eval\<close> applied to a
  null tree returns NaN, in every environment.
\<close>

theorem te_eval_null: "te_eval env None = NaN"
  by (simp add: te_eval_def)


text \<open>
  Claim C2, at an input on which the code departs from it.  The claim: the error code
  \<open>- 1\<close> is kept for a failed allocation, and no grammar error is reported with it.
  The call \<open>atan2(1,2,3)\<close> has three arguments for a function of two; every allocation
  succeeds (the list of failing allocations is empty), and \<open>te_compile\<close> stores \<open>- 1\<close>,
  the code it also stores when the first allocation fails.
\<close>

theorem arity_error_reported_as_allocation_failure:
  "te_compile env [] ''atan2(1,2,3)'' None 0 = Returned (None, - 1)
   \<and> te_compile env [False] ''1'' None 0 = Returned (None, - 1)"
  by code_simp

text \<open>
  Claim C1 as stated fails: \<open>sin\<close> is unary, and \<open>sin(1,2)\<close> compiles.  The argument of a
  unary function is one \<open>power\<close> production, here the parenthesised list \<open>(1,2)\<close>, whose
  value is that of its last expression: the tree is the call of \<open>sin\<close> on the comma node,
  which the optimizer folds to the constant \<open>sin(2)\<close>.
\<close>

theorem unary_call_with_two_arguments_compiles:
  "list_te (next_token (initial_state [] ''sin(1,2)'' None 0)) =
     (Some (Node (TE_FUNCTION1 OR TE_FLAG_PURE) (Function (ExtPtr ''sin''))
              [Node (TE_FUNCTION2 OR TE_FLAG_PURE) (Function (FunPtr ''comma''))
                 [Node TE_CONSTANT (Value (Fin 1)) [] 0, Node TE_CONSTANT (Value (Fin 2)) [] 0] 0] 0),
      \<lparr>start = ''sin(1,2)'', next = [], type = TOK_END, u = Value (Fin 2), context = 0,
       lookup = None, lookup_len = 0, heap = [], ub = False\<rparr>)
   \<and> te_compile env0 [] ''sin(1,2)'' None 0 =
     Returned (Some (Node TE_CONSTANT (Value (extern env0 ''sin'' None [Fin 2])) [] 0), 0)"
  by code_simp

text \<open>
  Claim C3 as stated fails: in \<open>1 22\<close> the unexpected token \<open>22\<close> begins at the third
  character, and \<open>te_compile\<close> stores 4, the number of characters read when the parse
  stopped, the unexpected token included.
\<close>

theorem error_is_not_where_the_token_began:
  "te_compile env0 [] ''1 22'' None 0 = Returned (None, 4)"
  by code_simp

text \<open>
  Claim C4 as stated fails: \<open>sin\<close> has arity 1, and \<open>sin 1\<close>, with no parenthesis after the
  function token, compiles to the constant \<open>sin(1)\<close>.
\<close>

theorem unary_call_without_parenthesis_compiles:
  "list_te (next_token (initial_state [] ''sin 1'' None 0)) =
     (Some (Node (TE_FUNCTION1 OR TE_FLAG_PURE) (Function (ExtPtr ''sin''))
              [Node TE_CONSTANT (Value (Fin 1)) [] 0] 0),
      \<lparr>start = ''sin 1'', next = [], type = TOK_END, u = Value (Fin 1), context = 0,
       lookup = None, lookup_len = 0, heap = [], ub = False\<rparr>)
   \<and> te_compile env0 [] ''sin 1'' None 0 =
     Returned (Some (Node TE_CONSTANT (Value (extern env0 ''sin'' None [Fin 1])) [] 0), 0)"
  by code_simp


text \<open>The optimizer preserves the value of a node.\<close>

lemma optimize_eval: "te_eval_node env (optimize env n) = te_eval_node env n"
proof (induction env n rule: optimize.induct)
  case (1 env t w ps c)
  show ?case
  proof (cases "t \<noteq> TE_CONSTANT \<and> t \<noteq> TE_VARIABLE \<and> IS_PURE t")
    case False
    then show ?thesis by (auto simp: optimize.simps)
  next
    case True
    then have "\<And>p. p \<in> set ps \<Longrightarrow> te_eval_node env (optimize env p) = te_eval_node env p"
      using 1 by simp
    then have args: "map (te_eval_node env) (map (optimize env) ps) = map (te_eval_node env) ps"
      by simp
    have same: "te_eval_node env (Node t w (map (optimize env) ps) c) = te_eval_node env (Node t w ps c)"
      unfolding te_eval_node.simps args ..
    have const: "\<And>v. te_eval_node env (Node TE_CONSTANT (Value v) [] c) = v"
      by (simp add: te_eval_node.simps TYPE_MASK_def)
    from True same const show ?thesis
      by (simp add: optimize.simps Let_def)
  qed
qed

text \<open>
  Claim C5.  On a call node flagged pure, \<open>optimize\<close> optimizes the children, and the
  node becomes a constant exactly when the optimized children (the first \<open>ARITY\<close>) are
  all constants; the constant holds the value of the node.  A node not flagged pure is
  returned as it is, children included.  Compiling \<open>1+2*3\<close> with no variables yields the
  single node \<open>Constant 7\<close>.
\<close>

theorem optimize_folds_pure_calls:
  "(t \<noteq> TE_CONSTANT \<and> t \<noteq> TE_VARIABLE \<and> IS_PURE t \<longrightarrow>
      optimize env (Node t w ps c) =
        (if list_all (\<lambda>p. node_type p = TE_CONSTANT) (take (nat (ARITY t)) (map (optimize env) ps))
         then Node TE_CONSTANT (Value (te_eval_node env (Node t w ps c))) [] c
         else Node t w (map (optimize env) ps) c))
   \<and> (\<not> IS_PURE t \<longrightarrow> optimize env (Node t w ps c) = Node t w ps c)
   \<and> te_compile env [] ''1+2*3'' None 0 =
       Returned (Some (Node TE_CONSTANT (Value (Fin 7)) [] 0), 0)"
proof (intro conjI impI)
  assume pure: "t \<noteq> TE_CONSTANT \<and> t \<noteq> TE_VARIABLE \<and> IS_PURE t"
  have "te_eval_node env (Node t w (map (optimize env) ps) c) = te_eval_node env (Node t w ps c)"
    using optimize_eval [of env "Node t w ps c"] pure
    by (simp add: optimize.simps te_eval_node.simps [of env TE_CONSTANT] TYPE_MASK_def Let_def
          split: if_splits)
  with pure show "optimize env (Node t w ps c) =
        (if list_all (\<lambda>p. node_type p = TE_CONSTANT) (take (nat (ARITY t)) (map (optimize env) ps))
         then Node TE_CONSTANT (Value (te_eval_node env (Node t w ps c))) [] c
         else Node t w (map (optimize env) ps) c)"
    by (simp add: optimize.simps Let_def)
next
  assume "\<not> IS_PURE t"
  then show "optimize env (Node t w ps c) = Node t w ps c"
    by (simp add: optimize.simps)
next
  show "te_compile env [] ''1+2*3'' None 0 =
       Returned (Some (Node TE_CONSTANT (Value (Fin 7)) [] 0), 0)"
    by code_simp
qed

theorem optimize_folds_pure_calls_witness:
  "optimize env0 (Node (TE_FUNCTION2 OR TE_FLAG_PURE) (Function (FunPtr ''mul''))
       [Node TE_CONSTANT (Value (Fin 2)) [] 0, Node TE_CONSTANT (Value (Fin 3)) [] 0] 0)
     = Node TE_CONSTANT (Value (Fin 6)) [] 0
   \<and> optimize env0 (Node TE_FUNCTION1 (Function (ExtPtr ''f''))
       [Node (TE_FUNCTION2 OR TE_FLAG_PURE) (Function (FunPtr ''mul''))
          [Node TE_CONSTANT (Value (Fin 2)) [] 0, Node TE_CONSTANT (Value (Fin 3)) [] 0] 0] 0)
     = Node TE_FUNCTION1 (Function (ExtPtr ''f''))
       [Node (TE_FUNCTION2 OR TE_FLAG_PURE) (Function (FunPtr ''mul''))
          [Node TE_CONSTANT (Value (Fin 2)) [] 0, Node TE_CONSTANT (Value (Fin 3)) [] 0] 0] 0"
  using optimize_folds_pure_calls [of "TE_FUNCTION2 OR TE_FLAG_PURE" env0 "Function (FunPtr ''mul'')"
      "[Node TE_CONSTANT (Value (Fin 2)) [] 0, Node TE_CONSTANT (Value (Fin 3)) [] 0]" 0]
    optimize_folds_pure_calls [of TE_FUNCTION1 env0 "Function (ExtPtr ''f'')"
      "[Node (TE_FUNCTION2 OR TE_FLAG_PURE) (Function (FunPtr ''mul''))
          [Node TE_CONSTANT (Value (Fin 2)) [] 0, Node TE_CONSTANT (Value (Fin 3)) [] 0] 0]" 0]
  by (simp add: IS_PURE_def ARITY_def TYPE_MASK_def mul_te_def Let_def optimize.simps
        te_eval_node.simps)


subsection \<open>Unary signs\<close>

text \<open>The token is an infix \<open>+\<close> or \<open>-\<close>, the condition of the sign loop of \<open>power\<close>; and the
  number of \<open>-\<close> among the \<open>k\<close> tokens from the cursor \<open>s\<close> on.\<close>

definition sign_token :: "state \<Rightarrow> bool" where
  "sign_token s = (type s = TOK_INFIX
     \<and> (pointer_of (u s) = FunPtr ''add'' \<or> pointer_of (u s) = FunPtr ''sub''))"

primrec minus_count :: "nat \<Rightarrow> state \<Rightarrow> nat" where
  "minus_count 0 s = 0"
| "minus_count (Suc k) s =
     (if pointer_of (u s) = FunPtr ''sub'' then 1 else 0) + minus_count k (next_token s)"

lemma power_signs_run:
  "(\<And>j. j < k \<Longrightarrow> sign_token ((next_token ^^ j) s)) \<Longrightarrow> \<not> sign_token ((next_token ^^ k) s) \<Longrightarrow>
   power_signs sign s = ((if even (minus_count k s) then sign else - sign), (next_token ^^ k) s)"
proof (induction k arbitrary: s sign)
  case 0
  then show ?case
    by (auto simp: power_signs.simps [of sign s] sign_token_def)
next
  case (Suc k)
  have here: "sign_token s"
    using Suc.prems(1) [of 0] by simp
  have later: "\<And>j. j < k \<Longrightarrow> sign_token ((next_token ^^ j) (next_token s))"
    using Suc.prems(1) [of "Suc _"] by (simp add: funpow_swap1)
  have stop: "\<not> sign_token ((next_token ^^ k) (next_token s))"
    using Suc.prems(2) by (simp add: funpow_swap1)
  show ?case
    using here Suc.IH [OF later stop]
    by (simp add: power_signs.simps [of sign s] sign_token_def funpow_swap1)
qed

text \<open>A caller's variable \<open>x\<close>, for the examples.\<close>

definition var_x :: te_variable where
  "var_x = \<lparr>name = ''x'', address = DoublePtr 0, var_type = TE_VARIABLE, var_context = 0\<rparr>"

text \<open>
  Claim C8.  When the \<open>k\<close> tokens from the cursor on are signs and the token after them
  is not, \<open>power\<close> is \<open>base\<close> at that token if the number of \<open>-\<close> among them is even, and
  otherwise that \<open>base\<close> wrapped in one node for \<open>negate\<close>; no other node is added.  The
  signs belong to the whole call that follows them: \<open>-sin(x)\<close> is \<open>negate\<close> of \<open>sin\<close> of
  \<open>x\<close>, and \<open>- - + -x\<close> is one \<open>negate\<close> of \<open>x\<close>.
\<close>

theorem unary_signs_collapse:
  "((\<forall>j<k. sign_token ((next_token ^^ j) s)) \<and> \<not> sign_token ((next_token ^^ k) s) \<longrightarrow>
     power_te s =
       (if even (minus_count k s) then base ((next_token ^^ k) s)
        else
          (case base ((next_token ^^ k) s) of
             (None, s2) \<Rightarrow> (None, s2)
           | (Some b, s2) \<Rightarrow>
               (case new_expr (TE_FUNCTION1 OR TE_FLAG_PURE) [b] s2 of
                  (None, s3) \<Rightarrow> (None, s3)
                | (Some ret, s3) \<Rightarrow> (Some (set_function ret (FunPtr ''negate'')), s3)))))
   \<and> te_compile env [] ''-sin(x)'' (Some [var_x]) 1 =
       Returned (Some (Node (TE_FUNCTION1 OR TE_FLAG_PURE) (Function (FunPtr ''negate''))
          [Node (TE_FUNCTION1 OR TE_FLAG_PURE) (Function (ExtPtr ''sin''))
             [Node TE_VARIABLE (Bound (DoublePtr 0)) [] 0] 0] 0), 0)
   \<and> te_compile env [] ''- - + -x'' (Some [var_x]) 1 =
       Returned (Some (Node (TE_FUNCTION1 OR TE_FLAG_PURE) (Function (FunPtr ''negate''))
          [Node TE_VARIABLE (Bound (DoublePtr 0)) [] 0] 0), 0)
   \<and> te_compile env [] ''+-+-x'' (Some [var_x]) 1 =
       Returned (Some (Node TE_VARIABLE (Bound (DoublePtr 0)) [] 0), 0)"
proof (intro conjI impI)
  assume a: "(\<forall>j<k. sign_token ((next_token ^^ j) s)) \<and> \<not> sign_token ((next_token ^^ k) s)"
  have "power_signs 1 s = ((if even (minus_count k s) then 1 else - 1), (next_token ^^ k) s)"
    using a by (intro power_signs_run) simp_all
  then show "power_te s =
       (if even (minus_count k s) then base ((next_token ^^ k) s)
        else
          (case base ((next_token ^^ k) s) of
             (None, s2) \<Rightarrow> (None, s2)
           | (Some b, s2) \<Rightarrow>
               (case new_expr (TE_FUNCTION1 OR TE_FLAG_PURE) [b] s2 of
                  (None, s3) \<Rightarrow> (None, s3)
                | (Some ret, s3) \<Rightarrow> (Some (set_function ret (FunPtr ''negate'')), s3))))"
    by (simp add: power_te.simps [of s])
qed code_simp+

theorem unary_signs_collapse_witness:
  "power_te (next_token (initial_state [] ''+-1'' None 0)) =
     (Some (Node (TE_FUNCTION1 OR TE_FLAG_PURE) (Function (FunPtr ''negate''))
        [Node TE_CONSTANT (Value (Fin 1)) [] 0] 0),
      \<lparr>start = ''+-1'', next = [], type = TOK_END, u = Value (Fin 1), context = 0,
       lookup = None, lookup_len = 0, heap = [], ub = False\<rparr>)"
proof -
  let ?s = "next_token (initial_state [] ''+-1'' None 0)"
  have h0: "sign_token ((next_token ^^ 0) ?s)" by code_simp
  have h1: "sign_token ((next_token ^^ 1) ?s)" by code_simp
  have "\<And>j::nat. j < 2 \<Longrightarrow> j = 0 \<or> j = 1" by arith
  with h0 h1 have h: "\<forall>j<2. sign_token ((next_token ^^ j) ?s)" by blast
  have stop: "\<not> sign_token ((next_token ^^ 2) ?s)" by code_simp
  have odd: "minus_count 2 ?s = 1" by code_simp
  have b: "base ((next_token ^^ 2) ?s) =
     (Some (Node TE_CONSTANT (Value (Fin 1)) [] 0),
      \<lparr>start = ''+-1'', next = [], type = TOK_END, u = Value (Fin 1), context = 0,
       lookup = None, lookup_len = 0, heap = [], ub = False\<rparr>)"
    by code_simp
  from unary_signs_collapse [of 2 ?s] h stop
  have "power_te ?s =
       (if even (minus_count 2 ?s) then base ((next_token ^^ 2) ?s)
        else
          (case base ((next_token ^^ 2) ?s) of
             (None, s2) \<Rightarrow> (None, s2)
           | (Some b, s2) \<Rightarrow>
               (case new_expr (TE_FUNCTION1 OR TE_FLAG_PURE) [b] s2 of
                  (None, s3) \<Rightarrow> (None, s3)
                | (Some ret, s3) \<Rightarrow> (Some (set_function ret (FunPtr ''negate'')), s3))))"
    by blast
  then show ?thesis
    unfolding odd b by (simp add: new_expr_def malloc_def ARITY_def)
qed


subsection \<open>Lookup by name\<close>

text \<open>The order of C strings that \<open>strncmp\<close> decides: bytes compared as unsigned, a proper
  prefix first.\<close>

fun str_less :: "string \<Rightarrow> string \<Rightarrow> bool" where
  "str_less [] [] = False"
| "str_less [] (y # ys) = True"
| "str_less (x # xs) [] = False"
| "str_less (x # xs) (y # ys) = ((of_char x :: nat) < of_char y \<or> (x = y \<and> str_less xs ys))"

text \<open>The value \<open>c\<close> that \<open>find_builtin\<close> computes for the \<open>len\<close> characters at \<open>nm\<close> and an
  entry named \<open>n\<close>.\<close>

definition compare_name :: "string \<Rightarrow> nat \<Rightarrow> string \<Rightarrow> int" where
  "compare_name nm len n =
     (let c = strncmp nm n len in if c = 0 then 0 - of_char (cnth n len) else c)"

lemma of_char_eq_0: "(of_char c :: int) = 0 \<longleftrightarrow> c = CHR 0x00"
proof -
  have "(of_char c :: int) = of_char (CHR 0x00) \<longleftrightarrow> c = CHR 0x00"
    by (rule of_char_eq_iff)
  then show ?thesis by simp
qed

lemma of_char_int_nonneg: "0 \<le> (of_char c :: int)"
  by (simp add: of_char_def)

lemma of_char_int_less: "(of_char x :: int) < of_char y \<longleftrightarrow> (of_char x :: nat) < of_char y"
proof -
  have "(of_char x :: int) = int (of_char x)" "(of_char y :: int) = int (of_char y)"
    by (simp_all add: of_char_def)
  then show ?thesis by simp
qed

lemma compare_name_sign:
  "CHR 0x00 \<notin> set key \<Longrightarrow> CHR 0x00 \<notin> set n \<Longrightarrow>
   (compare_name (key @ rest) (length key) n = 0 \<longleftrightarrow> n = key)
   \<and> (0 < compare_name (key @ rest) (length key) n \<longleftrightarrow> str_less n key)
   \<and> (compare_name (key @ rest) (length key) n < 0 \<longleftrightarrow> str_less key n)"
proof (induction key arbitrary: n)
  case Nil
  then show ?case
  proof (cases n)
    case Nil
    then show ?thesis by (simp add: compare_name_def cnth_def)
  next
    case (Cons y ys)
    with Nil.prems have "(of_char y :: int) \<noteq> 0"
      by (auto simp: of_char_eq_0)
    with of_char_int_nonneg [of y] have "0 < (of_char y :: int)" by linarith
    with Cons show ?thesis by (simp add: compare_name_def cnth_def)
  qed
next
  case (Cons k ks)
  from Cons.prems have k0: "0 < (of_char k :: int)"
    using of_char_int_nonneg [of k] of_char_eq_0 [of k] by (cases "(of_char k :: int) = 0") auto
  show ?case
  proof (cases n)
    case Nil
    with k0 show ?thesis by (simp add: compare_name_def)
  next
    case c: (Cons y ys)
    show ?thesis
    proof (cases "k = y")
      case True
      have "compare_name ((k # ks) @ rest) (length (k # ks)) n = compare_name (ks @ rest) (length ks) ys"
        using True c by (simp add: compare_name_def cnth_def Let_def)
      moreover have "CHR 0x00 \<notin> set ks" "CHR 0x00 \<notin> set ys"
        using Cons.prems c by auto
      ultimately show ?thesis
        using Cons.IH [of ys] True c by simp
    next
      case False
      then have ne: "(of_char k :: int) \<noteq> of_char y" by simp
      have "compare_name ((k # ks) @ rest) (length (k # ks)) n = of_char k - of_char y"
        using False c ne by (simp add: compare_name_def)
      then show ?thesis
        using False c ne of_char_int_less [of y k] of_char_int_less [of k y] by auto
    qed
  qed
qed

lemma str_less_irrefl: "\<not> str_less a a"
  by (induction a) simp_all

lemma str_less_trans: "str_less a b \<Longrightarrow> str_less b c \<Longrightarrow> str_less a c"
proof (induction a b arbitrary: c rule: str_less.induct)
  case (2 y ys)
  then show ?case by (cases c) simp_all
next
  case (4 x xs y ys)
  then show ?case by (cases c) auto
qed simp_all

lemma bsearch_find:
  assumes key: "CHR 0x00 \<notin> set key"
  shows "sorted_wrt (\<lambda>a b. str_less (name a) (name b)) tbl \<Longrightarrow>
     (\<And>e. e \<in> set tbl \<Longrightarrow> CHR 0x00 \<notin> set (name e)) \<Longrightarrow>
     nm = key @ rest \<Longrightarrow> len = length key \<Longrightarrow> 0 \<le> imin \<Longrightarrow> imax < int (length tbl) \<Longrightarrow>
     (\<And>j. j < nat imin \<Longrightarrow> str_less (name (tbl ! j)) key) \<Longrightarrow>
     (\<And>j. nat (imax + 1) \<le> j \<Longrightarrow> j < length tbl \<Longrightarrow> str_less key (name (tbl ! j))) \<Longrightarrow>
     bsearch tbl nm len imin imax = find (\<lambda>e. name e = key) tbl"
proof (induction tbl nm len imin imax rule: bsearch.induct)
  case (1 tbl nm len imin imax)
  note srt = sorted_wrt_iff_nth_less [THEN iffD1, OF "1.prems"(1), rule_format]
  show ?case
  proof (cases "imin \<le> imax")
    case False
    have "\<And>x. x \<in> set tbl \<Longrightarrow> name x \<noteq> key"
    proof -
      fix x assume "x \<in> set tbl"
      then obtain j where j: "j < length tbl" "x = tbl ! j"
        by (auto simp: in_set_conv_nth)
      show "name x \<noteq> key"
      proof (cases "j < nat imin")
        case True
        from "1.prems"(7) [OF True] j show ?thesis
          using str_less_irrefl [of key] by auto
      next
        case ge: False
        with False have "nat (imax + 1) \<le> j" by linarith
        from "1.prems"(8) [OF this j(1)] j show ?thesis
          using str_less_irrefl [of key] by auto
      qed
    qed
    then have "find (\<lambda>e. name e = key) tbl = None"
      by (auto simp: find_None_iff)
    with False show ?thesis
      by (simp add: bsearch.simps [of tbl nm len imin imax])
  next
    case True
    define i where "i = imin + (imax - imin) div 2"
    have irange: "imin \<le> i" "i \<le> imax"
      using True unfolding i_def by presburger+
    then have ilen: "nat i < length tbl" "0 \<le> i"
      using "1.prems"(5,6) by linarith+
    define c where "c = compare_name nm len (name (tbl ! nat i))"
    have nonul: "CHR 0x00 \<notin> set (name (tbl ! nat i))"
      using "1.prems"(2) [of "tbl ! nat i"] ilen by simp
    have sign: "(c = 0 \<longleftrightarrow> name (tbl ! nat i) = key)"
      "(0 < c \<longleftrightarrow> str_less (name (tbl ! nat i)) key)"
      "(c < 0 \<longleftrightarrow> str_less key (name (tbl ! nat i)))"
      using compare_name_sign [OF key nonul, of rest] "1.prems"(3,4) unfolding c_def by simp_all
    have unfold: "bsearch tbl nm len imin imax =
        (if c = 0 then Some (tbl ! nat i)
         else if c > 0 then bsearch tbl nm len (i + 1) imax
         else bsearch tbl nm len imin (i - 1))"
      using True
      by (simp add: bsearch.simps [of tbl nm len imin imax] c_def i_def compare_name_def Let_def)
    consider (eq) "c = 0" | (gt) "0 < c" | (lt) "c < 0" by linarith
    then show ?thesis
    proof cases
      case eq
      have "\<And>k. k < nat i \<Longrightarrow> name (tbl ! k) \<noteq> key"
      proof -
        fix k assume "k < nat i"
        from srt [OF this ilen(1)] sign(1) eq show "name (tbl ! k) \<noteq> key"
          using str_less_irrefl [of key] by auto
      qed
      then have "find (\<lambda>e. name e = key) tbl = Some (tbl ! nat i)"
        using sign(1) eq ilen by (auto simp: find_Some_iff intro!: exI [of _ "nat i"])
      with eq unfold show ?thesis by simp
    next
      case gt
      have low: "\<And>j. j < nat (i + 1) \<Longrightarrow> str_less (name (tbl ! j)) key"
      proof -
        fix j assume j: "j < nat (i + 1)"
        show "str_less (name (tbl ! j)) key"
        proof (cases "j = nat i")
          case True
          with gt sign(2) show ?thesis by simp
        next
          case False
          with j ilen have "j < nat i" by linarith
          from srt [OF this ilen(1)] gt sign(2) show ?thesis
            by (blast intro: str_less_trans)
        qed
      qed
      have "bsearch tbl nm len (i + 1) imax = find (\<lambda>e. name e = key) tbl"
      proof (rule "1.IH"(1) [OF True])
        show "i = imin + (imax - imin) div 2" by (rule i_def)
        show "strncmp nm (name (tbl ! nat i)) len = strncmp nm (name (tbl ! nat i)) len" ..
        show "c = (if strncmp nm (name (tbl ! nat i)) len = 0
             then 0 - of_char (cnth (name (tbl ! nat i)) len)
             else strncmp nm (name (tbl ! nat i)) len)"
          by (simp add: c_def compare_name_def Let_def)
        show "c \<noteq> 0" using gt by simp
        show "0 < c" by (rule gt)
        show "sorted_wrt (\<lambda>a b. str_less (name a) (name b)) tbl" by (rule "1.prems"(1))
        show "\<And>e. e \<in> set tbl \<Longrightarrow> CHR 0x00 \<notin> set (name e)" by (rule "1.prems"(2))
        show "nm = key @ rest" by (rule "1.prems"(3))
        show "len = length key" by (rule "1.prems"(4))
        show "0 \<le> i + 1" using ilen by simp
        show "imax < int (length tbl)" by (rule "1.prems"(6))
        show "\<And>j. j < nat (i + 1) \<Longrightarrow> str_less (name (tbl ! j)) key" by (rule low)
        show "\<And>j. nat (imax + 1) \<le> j \<Longrightarrow> j < length tbl \<Longrightarrow> str_less key (name (tbl ! j))"
          by (rule "1.prems"(8))
      qed
      with gt unfold show ?thesis by simp
    next
      case lt
      have high: "\<And>j. nat (i - 1 + 1) \<le> j \<Longrightarrow> j < length tbl \<Longrightarrow> str_less key (name (tbl ! j))"
      proof -
        fix j assume j: "nat (i - 1 + 1) \<le> j" "j < length tbl"
        show "str_less key (name (tbl ! j))"
        proof (cases "j = nat i")
          case True
          with lt sign(3) show ?thesis by simp
        next
          case False
          with j have "nat i < j" by simp
          from srt [OF this j(2)] lt sign(3) show ?thesis
            by (blast intro: str_less_trans)
        qed
      qed
      have "bsearch tbl nm len imin (i - 1) = find (\<lambda>e. name e = key) tbl"
      proof (rule "1.IH"(2) [OF True])
        show "i = imin + (imax - imin) div 2" by (rule i_def)
        show "strncmp nm (name (tbl ! nat i)) len = strncmp nm (name (tbl ! nat i)) len" ..
        show "c = (if strncmp nm (name (tbl ! nat i)) len = 0
             then 0 - of_char (cnth (name (tbl ! nat i)) len)
             else strncmp nm (name (tbl ! nat i)) len)"
          by (simp add: c_def compare_name_def Let_def)
        show "c \<noteq> 0" using lt by simp
        show "\<not> 0 < c" using lt by simp
        show "sorted_wrt (\<lambda>a b. str_less (name a) (name b)) tbl" by (rule "1.prems"(1))
        show "\<And>e. e \<in> set tbl \<Longrightarrow> CHR 0x00 \<notin> set (name e)" by (rule "1.prems"(2))
        show "nm = key @ rest" by (rule "1.prems"(3))
        show "len = length key" by (rule "1.prems"(4))
        show "0 \<le> imin" by (rule "1.prems"(5))
        show "i - 1 < int (length tbl)" using ilen by linarith
        show "\<And>j. j < nat imin \<Longrightarrow> str_less (name (tbl ! j)) key" by (rule "1.prems"(7))
        show "\<And>j. nat (i - 1 + 1) \<le> j \<Longrightarrow> j < length tbl \<Longrightarrow> str_less key (name (tbl ! j))"
          by (rule high)
      qed
      with lt unfold show ?thesis by simp
    qed
  qed
qed

lemma functions_sorted: "sorted_wrt (\<lambda>a b. str_less (name a) (name b)) functions"
  by (simp add: functions_def builtin_def)

lemma functions_no_nul: "e \<in> set functions \<Longrightarrow> CHR 0x00 \<notin> set (name e)"
  by (auto simp: functions_def builtin_def)

lemma find_builtin_find:
  assumes len: "len \<le> length nm" and nonul: "CHR 0x00 \<notin> set (take len nm)"
  shows "find_builtin nm len = find (\<lambda>e. name e = take len nm) functions"
proof -
  have "bsearch functions nm len 0 (int (length functions) - 1) =
      find (\<lambda>e. name e = take len nm) functions"
  proof (rule bsearch_find [where rest = "drop len nm"])
    show "CHR 0x00 \<notin> set (take len nm)" by (rule nonul)
    show "sorted_wrt (\<lambda>a b. str_less (name a) (name b)) functions" by (rule functions_sorted)
    show "\<And>e. e \<in> set functions \<Longrightarrow> CHR 0x00 \<notin> set (name e)" by (rule functions_no_nul)
    show "nm = take len nm @ drop len nm" by simp
    show "len = length (take len nm)" using len by simp
    show "(0::int) \<le> 0" by simp
    show "int (length functions) - 1 < int (length functions)" by simp
    show "\<And>j. j < nat 0 \<Longrightarrow> str_less (name (functions ! j)) (take len nm)" by simp
    show "\<And>j. nat (int (length functions) - 1 + 1) \<le> j \<Longrightarrow> j < length functions \<Longrightarrow>
        str_less (take len nm) (name (functions ! j))" by simp
  qed
  then show ?thesis
    by (simp add: find_builtin_def)
qed

text \<open>
  Claim C9.  For a name of at least \<open>len\<close> characters, \<open>find_builtin\<close> returns the entry of
  the table whose name is exactly the first \<open>len\<close> characters, and no entry when there is
  none: the result of the binary search is that of a scan of the table for an equal
  name.  The table is in strictly ascending order of names, so at most one entry
  matches.  A prefix of a name or a longer identifier finds nothing (\<open>si\<close>, \<open>sinx\<close>), and
  only the \<open>len\<close> characters count (\<open>sin\<close> in \<open>sinh\<close> with \<open>len = 3\<close>).
\<close>

theorem find_builtin_exact:
  "(len \<le> length nm \<and> CHR 0x00 \<notin> set (take len nm) \<longrightarrow>
      find_builtin nm len = find (\<lambda>e. name e = take len nm) functions)
   \<and> sorted_wrt (\<lambda>a b. str_less (name a) (name b)) functions
   \<and> find_builtin ''sinh'' 3 = Some (builtin ''sin'' (ExtPtr ''sin'') (TE_FUNCTION1 OR TE_FLAG_PURE))
   \<and> find_builtin ''sinh'' 4 = Some (builtin ''sinh'' (ExtPtr ''sinh'') (TE_FUNCTION1 OR TE_FLAG_PURE))
   \<and> find_builtin ''si'' 2 = None
   \<and> find_builtin ''sinx+1'' 4 = None"
proof (intro conjI impI)
  assume "len \<le> length nm \<and> CHR 0x00 \<notin> set (take len nm)"
  then show "find_builtin nm len = find (\<lambda>e. name e = take len nm) functions"
    by (simp add: find_builtin_find)
next
  show "sorted_wrt (\<lambda>a b. str_less (name a) (name b)) functions" by (rule functions_sorted)
qed code_simp+

theorem find_builtin_exact_witness:
  "find_builtin ''pi*2'' 2 = Some (builtin ''pi'' (FunPtr ''pi'') (TE_FUNCTION0 OR TE_FLAG_PURE))
   \<and> find_builtin ''pix'' 3 = None"
  using find_builtin_exact [of 2 "''pi*2''"] find_builtin_exact [of 3 "''pix''"]
  by (simp add: functions_def builtin_def)


lemma find_lookup_loop_find:
  assumes key: "CHR 0x00 \<notin> set key"
  shows "(\<And>v. v \<in> set var \<Longrightarrow> CHR 0x00 \<notin> set (name v)) \<Longrightarrow> nm = key @ rest \<Longrightarrow>
     len = length key \<Longrightarrow>
     find_lookup_loop var iters nm len = find (\<lambda>v. name v = key) (take iters var)"
proof (induction var iters nm len rule: find_lookup_loop.induct)
  case (3 v var iters nm len)
  have nonul: "CHR 0x00 \<notin> set (name v)"
    using 3(2) [of v] by simp
  have "compare_name nm len (name v) = 0 \<longleftrightarrow> name v = key"
    using compare_name_sign [OF key nonul, of rest] 3(3,4) by simp
  then have test: "strncmp nm (name v) len = 0 \<and> cnth (name v) len = CHR 0x00 \<longleftrightarrow> name v = key"
    by (auto simp: compare_name_def Let_def of_char_eq_0 split: if_splits)
  show ?case
  proof (cases "name v = key")
    case True
    with test show ?thesis by simp
  next
    case False
    have "find_lookup_loop var iters nm len = find (\<lambda>v. name v = key) (take iters var)"
      using False test 3(1) 3(2) 3(3,4) by auto
    with False test show ?thesis by auto
  qed
qed simp_all

lemma ident_no_nul: "CHR 0x00 \<notin> set (takeWhile is_ident_char cs)"
proof
  assume "CHR 0x00 \<in> set (takeWhile is_ident_char cs)"
  then have "is_ident_char (CHR 0x00)" by (rule set_takeWhileD [THEN conjunct2])
  then show False by (simp add: is_ident_char_def isalpha_def isdigit_def)
qed

lemma ident_length:
  "length cs - length (dropWhile is_ident_char cs) = length (takeWhile is_ident_char cs)"
proof -
  have "length (takeWhile is_ident_char cs @ dropWhile is_ident_char cs) = length cs"
    by simp
  then show ?thesis
    by (simp del: takeWhile_dropWhile_id)
qed

lemma isalpha_not_digit: "isalpha c \<Longrightarrow> \<not> (isdigit c \<or> c = CHR ''.'')"
  by (auto simp: isalpha_def isdigit_def)

text \<open>
  Claim C6.  An identifier (a letter \<open>c\<close> and the identifier characters that follow it in
  \<open>cs\<close>) is resolved to the first entry of that name among the first \<open>lookup_len\<close>
  entries of the caller's table, and to the builtin of that name only when the caller's
  table has none; an identifier in neither table is an error token.  So where both
  tables hold the name, the token comes from the caller's entry: with a caller's
  variable named \<open>pi\<close> the expression \<open>pi\<close> compiles to a reference to that variable, and
  without it to the builtin, folded by the optimizer.
\<close>

theorem lookup_before_builtin:
  "(isalpha c \<and> lookup s = Some vars \<and> (\<forall>v\<in>set vars. CHR 0x00 \<notin> set (name v)) \<longrightarrow>
      next_token_body s c cs =
        (let ident = takeWhile is_ident_char (c # cs);
             s1 = s\<lparr>next := dropWhile is_ident_char (c # cs)\<rparr>
         in case find (\<lambda>v. name v = ident) (take (lookup_len s) vars) of
              Some v \<Rightarrow> var_token s1 v
            | None \<Rightarrow>
                (case find (\<lambda>e. name e = ident) functions of
                   Some e \<Rightarrow> var_token s1 e
                 | None \<Rightarrow> s1\<lparr>type := TOK_ERROR\<rparr>)))
   \<and> te_compile env [] ''pi''
        (Some [\<lparr>name = ''pi'', address = DoublePtr 7, var_type = TE_VARIABLE, var_context = 0\<rparr>]) 1 =
       Returned (Some (Node TE_VARIABLE (Bound (DoublePtr 7)) [] 0), 0)
   \<and> te_compile env [] ''pi'' None 0 =
       Returned (Some (Node TE_CONSTANT (Value (extern env ''pi'' None [])) [] 0), 0)"
proof (intro conjI impI)
  assume a: "isalpha c \<and> lookup s = Some vars \<and> (\<forall>v\<in>set vars. CHR 0x00 \<notin> set (name v))"
  let ?ident = "takeWhile is_ident_char (c # cs)"
  let ?rest = "dropWhile is_ident_char (c # cs)"
  let ?s1 = "s\<lparr>next := ?rest\<rparr>"
  have split: "c # cs = ?ident @ ?rest" by simp
  have len: "length (c # cs) - length ?rest = length ?ident"
    by (rule ident_length)
  have nonul: "CHR 0x00 \<notin> set ?ident" by (rule ident_no_nul)
  have user: "find_lookup ?s1 (c # cs) (length ?ident) =
      find (\<lambda>v. name v = ?ident) (take (lookup_len s) vars)"
    using a find_lookup_loop_find [OF nonul _ split refl, of vars "lookup_len s"]
    by (simp add: find_lookup_def)
  have "length ?ident \<le> length (c # cs)"
    using len by simp
  moreover have "take (length ?ident) (c # cs) = ?ident"
    using split by (metis append_eq_conv_conj)
  ultimately have builtin: "find_builtin (c # cs) (length ?ident) = find (\<lambda>e. name e = ?ident) functions"
    using find_builtin_find [of "length ?ident" "c # cs"] nonul by simp
  have "next_token_body s c cs =
      (case (case find_lookup ?s1 (c # cs) (length ?ident) of
               None \<Rightarrow> find_builtin (c # cs) (length ?ident)
             | Some v \<Rightarrow> Some v) of
         None \<Rightarrow> ?s1\<lparr>type := TOK_ERROR\<rparr>
       | Some var \<Rightarrow> var_token ?s1 var)"
    using a isalpha_not_digit [of c] len
    by (simp add: next_token_body_def Let_def del: takeWhile.simps dropWhile.simps
          cong: option.case_cong)
  then show "next_token_body s c cs =
        (let ident = takeWhile is_ident_char (c # cs);
             s1 = s\<lparr>next := dropWhile is_ident_char (c # cs)\<rparr>
         in case find (\<lambda>v. name v = ident) (take (lookup_len s) vars) of
              Some v \<Rightarrow> var_token s1 v
            | None \<Rightarrow>
                (case find (\<lambda>e. name e = ident) functions of
                   Some e \<Rightarrow> var_token s1 e
                 | None \<Rightarrow> s1\<lparr>type := TOK_ERROR\<rparr>))"
    unfolding user builtin Let_def by (simp split: option.splits)
qed (code_simp, simp?)+

theorem lookup_before_builtin_witness:
  "next_token_body
     (initial_state [] ''pi+1''
        (Some [\<lparr>name = ''pi'', address = DoublePtr 7, var_type = TE_VARIABLE, var_context = 0\<rparr>]) 1)
     (CHR ''p'') ''i+1'' =
   \<lparr>start = ''pi+1'', next = ''+1'', type = TOK_VARIABLE, u = Bound (DoublePtr 7), context = 0,
    lookup = Some [\<lparr>name = ''pi'', address = DoublePtr 7, var_type = TE_VARIABLE, var_context = 0\<rparr>],
    lookup_len = 1, heap = [], ub = False\<rparr>"
  using lookup_before_builtin [of "CHR ''p''"
      "initial_state [] ''pi+1''
        (Some [\<lparr>name = ''pi'', address = DoublePtr 7, var_type = TE_VARIABLE, var_context = 0\<rparr>]) 1"
      "[\<lparr>name = ''pi'', address = DoublePtr 7, var_type = TE_VARIABLE, var_context = 0\<rparr>]"
      "''i+1''"]
  by (simp add: isalpha_def isdigit_def is_ident_char_def initial_state_def var_token_def
        TYPE_MASK_def)


subsection \<open>Binary chains\<close>

text \<open>The productions do not lengthen what is left to parse.\<close>

lemma production_weight:
  "weight (snd (power_te s)) \<le> weight s"
  "weight (snd (factor s)) \<le> weight s"
  "weight (snd (term_te s)) \<le> weight s"
  "weight (snd (expr s)) \<le> weight s"
  using parser_weight(3) [of s] parser_weight(4) [of s] parser_weight(6) [of s]
    parser_weight(8) [of s] parser_total
  by simp_all

text \<open>
  The rule of the specification for a binary chain.  \<open>binary f l r\<close> is the node for the
  operator \<open>f\<close> with the children \<open>l\<close> and \<open>r\<close>.  \<open>chain is_op op_of operand s ops s'\<close>: from
  the cursor \<open>s\<close> on, the input is a sequence of operators (tokens that satisfy \<open>is_op\<close>,
  with the callable \<open>op_of\<close>) each followed by an operand (parsed by \<open>operand\<close>, with a
  node allocated for the pair); \<open>ops\<close> lists the pairs of callable and operand subtree,
  and \<open>s'\<close> is the cursor at the first token that is not an operator.  \<open>chain_tree\<close> wraps
  the accumulated subtree and each operand in turn, from the left.
\<close>

definition binary :: "ptr \<Rightarrow> te_expr \<Rightarrow> te_expr \<Rightarrow> te_expr" where
  "binary f l r = Node (TE_FUNCTION2 OR TE_FLAG_PURE) (Function f) [l, r] 0"

inductive chain ::
  "(state \<Rightarrow> bool) \<Rightarrow> (state \<Rightarrow> ptr) \<Rightarrow> (state \<Rightarrow> te_expr option \<times> state)
     \<Rightarrow> state \<Rightarrow> (ptr \<times> te_expr) list \<Rightarrow> state \<Rightarrow> bool"
  for is_op op_of operand where
  chain_end: "\<not> is_op s \<Longrightarrow> chain is_op op_of operand s [] s"
| chain_step: "is_op s \<Longrightarrow> operand (next_token s) = (Some r, s2) \<Longrightarrow> malloc s2 = (True, s3) \<Longrightarrow>
     chain is_op op_of operand s3 ops s' \<Longrightarrow>
     chain is_op op_of operand s ((op_of s, r) # ops) s'"

definition chain_tree :: "te_expr \<Rightarrow> (ptr \<times> te_expr) list \<Rightarrow> te_expr" where
  "chain_tree first ops = foldl (\<lambda>l (f, r). binary f l r) first ops"

text \<open>The operator tests of the four loops.\<close>

definition is_sep :: "state \<Rightarrow> bool" where
  "is_sep s = (type s = TOK_SEP)"

definition is_mul :: "state \<Rightarrow> bool" where
  "is_mul s = (type s = TOK_INFIX
     \<and> (pointer_of (u s) = FunPtr ''mul'' \<or> pointer_of (u s) = FunPtr ''divide''
        \<or> pointer_of (u s) = ExtPtr ''fmod''))"

definition is_pow :: "state \<Rightarrow> bool" where
  "is_pow s = (type s = TOK_INFIX \<and> pointer_of (u s) = ExtPtr ''pow'')"

lemma new_expr_binary:
  "malloc s = (True, s') \<Longrightarrow>
   new_expr (TE_FUNCTION2 OR TE_FLAG_PURE) [l, r] s
     = (Some (Node (TE_FUNCTION2 OR TE_FLAG_PURE) (Bound NULL) [l, r] 0), s')"
  "malloc s = (False, s') \<Longrightarrow> new_expr (TE_FUNCTION2 OR TE_FLAG_PURE) [l, r] s = (None, s')"
  by (simp_all add: new_expr_def ARITY_def)

lemma malloc_weight: "malloc s = (ok, s') \<Longrightarrow> weight s' = weight s"
  by (auto simp: malloc_def weight_def split: list.splits)

text \<open>A function that satisfies the equation of one of the four loops builds the tree of
  the chain, and returns a tree only for a chain.\<close>

lemma loop_is_chain:
  assumes eq: "\<And>ret s. L ret s =
      (if is_op s then
         (case operand (next_token s) of
            (None, s2) \<Rightarrow> (None, s2)
          | (Some r, s2) \<Rightarrow>
              (case new_expr (TE_FUNCTION2 OR TE_FLAG_PURE) [ret, r] s2 of
                 (None, s3) \<Rightarrow> (None, s3)
               | (Some ret', s3) \<Rightarrow> L (set_function ret' (op_of s)) s3))
       else (Some ret, s))"
    and dec: "\<And>s. is_op s \<Longrightarrow> weight (snd (operand (next_token s))) < weight s"
  shows "L ret s = (Some t, s') \<longleftrightarrow>
    (\<exists>ops. chain is_op op_of operand s ops s' \<and> t = chain_tree ret ops)"
proof
  assume "\<exists>ops. chain is_op op_of operand s ops s' \<and> t = chain_tree ret ops"
  then obtain ops where c: "chain is_op op_of operand s ops s'" and t: "t = chain_tree ret ops"
    by blast
  from c have "L ret s = (Some (chain_tree ret ops), s')"
  proof (induction arbitrary: ret rule: chain.induct)
    case (chain_end s)
    then show ?case
      by (simp add: eq [of ret s] chain_tree_def)
  next
    case (chain_step s r s2 s3 ops s')
    from chain_step.hyps(1-3) chain_step.IH [of "binary (op_of s) ret r"]
    show ?case
      by (simp add: eq [of ret s] chain_tree_def new_expr_binary [simplified] binary_def)
  qed
  with t show "L ret s = (Some t, s')" by simp
next
  assume "L ret s = (Some t, s')"
  then show "\<exists>ops. chain is_op op_of operand s ops s' \<and> t = chain_tree ret ops"
  proof (induction "weight s" arbitrary: s ret rule: less_induct)
    case less
    show ?case
    proof (cases "is_op s")
      case False
      with less.prems have "t = ret" "s' = s"
        by (simp_all add: eq [of ret s])
      with False show ?thesis
        by (auto simp: chain_tree_def intro: chain_end)
    next
      case True
      obtain p s2 where c: "operand (next_token s) = (p, s2)"
        by (cases "operand (next_token s)")
      from less.prems True c obtain r where p: "p = Some r"
        by (cases p) (simp_all add: eq [of ret s])
      obtain ok s3 where m: "malloc s2 = (ok, s3)"
        by (cases "malloc s2")
      from less.prems True c p m have ok: "ok"
        by (cases ok) (simp_all add: eq [of ret s] new_expr_binary [simplified])
      from less.prems True c p m ok
      have rest: "L (binary (op_of s) ret r) s3 = (Some t, s')"
        by (simp add: eq [of ret s] new_expr_binary [simplified] binary_def)
      have "weight s3 < weight s"
        using dec [OF True] c malloc_weight [OF m] by simp
      from less.hyps [OF this rest] obtain ops
        where ops: "chain is_op op_of operand s3 ops s'" "t = chain_tree (binary (op_of s) ret r) ops"
        by blast
      from True c p m ok ops(1) have "chain is_op op_of operand s ((op_of s, r) # ops) s'"
        by (auto intro: chain_step)
      moreover have "t = chain_tree ret ((op_of s, r) # ops)"
        using ops(2) by (simp add: chain_tree_def)
      ultimately show ?thesis by blast
    qed
  qed
qed

lemma operand_shorter:
  "type s = TOK_INFIX \<or> type s = TOK_SEP \<Longrightarrow> weight (next_token s) < weight s"
  using next_token_weight [of s] by (auto simp: weight_def)

text \<open>
  Claim C7.  Each of the four loops (\<open>list\<close>, \<open>expr\<close>, \<open>term\<close>, \<open>factor\<close>) returns a tree exactly
  when the input from the cursor on is a chain of operators and operands at its level,
  and the tree is then the first operand wrapped with each further operand in turn,
  from the left: \<open>a op b op c\<close> is \<open>(a op b) op c\<close>.  So \<open>2-3-4\<close> parses as \<open>(2-3)-4\<close> and
  \<open>te_interp\<close> returns \<open>- 5\<close> for it, and \<open>2^3^2\<close>, \<open>8/4/2\<close> and \<open>1,2,3\<close> nest to the left
  as well.
\<close>

theorem chains_associate_left:
  "(list_loop ret s = (Some t, s') \<longleftrightarrow>
      (\<exists>ops. chain is_sep (\<lambda>s. FunPtr ''comma'') expr s ops s' \<and> t = chain_tree ret ops))
   \<and> (expr_loop ret s = (Some t, s') \<longleftrightarrow>
      (\<exists>ops. chain sign_token (\<lambda>s. pointer_of (u s)) term_te s ops s' \<and> t = chain_tree ret ops))
   \<and> (term_loop ret s = (Some t, s') \<longleftrightarrow>
      (\<exists>ops. chain is_mul (\<lambda>s. pointer_of (u s)) factor s ops s' \<and> t = chain_tree ret ops))
   \<and> (factor_loop ret s = (Some t, s') \<longleftrightarrow>
      (\<exists>ops. chain is_pow (\<lambda>s. pointer_of (u s)) power_te s ops s' \<and> t = chain_tree ret ops))
   \<and> chain_tree a [(f, b), (g, c)] = binary g (binary f a b) c
   \<and> fst (list_te (next_token (initial_state [] ''2-3-4'' None 0))) =
       Some (binary (FunPtr ''sub'')
              (binary (FunPtr ''sub'') (Node TE_CONSTANT (Value (Fin 2)) [] 0)
                 (Node TE_CONSTANT (Value (Fin 3)) [] 0))
              (Node TE_CONSTANT (Value (Fin 4)) [] 0))
   \<and> te_interp env [] ''2-3-4'' = Returned (Fin (- 5), 0)
   \<and> fst (list_te (next_token (initial_state [] ''2^3^2'' None 0))) =
       Some (binary (ExtPtr ''pow'')
              (binary (ExtPtr ''pow'') (Node TE_CONSTANT (Value (Fin 2)) [] 0)
                 (Node TE_CONSTANT (Value (Fin 3)) [] 0))
              (Node TE_CONSTANT (Value (Fin 2)) [] 0))
   \<and> te_interp env [] ''8/4/2'' = Returned (Fin 1, 0)
   \<and> fst (list_te (next_token (initial_state [] ''1,2,3'' None 0))) =
       Some (binary (FunPtr ''comma'')
              (binary (FunPtr ''comma'') (Node TE_CONSTANT (Value (Fin 1)) [] 0)
                 (Node TE_CONSTANT (Value (Fin 2)) [] 0))
              (Node TE_CONSTANT (Value (Fin 3)) [] 0))"
proof (intro conjI)
  show "list_loop ret s = (Some t, s') \<longleftrightarrow>
      (\<exists>ops. chain is_sep (\<lambda>s. FunPtr ''comma'') expr s ops s' \<and> t = chain_tree ret ops)"
  proof (rule loop_is_chain)
    show "\<And>s. is_sep s \<Longrightarrow> weight (snd (expr (next_token s))) < weight s"
      using production_weight(4) operand_shorter
      by (metis is_sep_def le_less_trans)
  qed (auto simp: list_loop.simps is_sep_def)
  show "expr_loop ret s = (Some t, s') \<longleftrightarrow>
      (\<exists>ops. chain sign_token (\<lambda>s. pointer_of (u s)) term_te s ops s' \<and> t = chain_tree ret ops)"
  proof (rule loop_is_chain)
    show "\<And>s. sign_token s \<Longrightarrow> weight (snd (term_te (next_token s))) < weight s"
      using production_weight(3) operand_shorter
      by (metis sign_token_def le_less_trans)
  qed (auto simp: expr_loop.simps sign_token_def Let_def)
  show "term_loop ret s = (Some t, s') \<longleftrightarrow>
      (\<exists>ops. chain is_mul (\<lambda>s. pointer_of (u s)) factor s ops s' \<and> t = chain_tree ret ops)"
  proof (rule loop_is_chain)
    show "\<And>s. is_mul s \<Longrightarrow> weight (snd (factor (next_token s))) < weight s"
      using production_weight(2) operand_shorter
      by (metis is_mul_def le_less_trans)
  qed (auto simp: term_loop.simps is_mul_def Let_def)
  show "factor_loop ret s = (Some t, s') \<longleftrightarrow>
      (\<exists>ops. chain is_pow (\<lambda>s. pointer_of (u s)) power_te s ops s' \<and> t = chain_tree ret ops)"
  proof (rule loop_is_chain)
    show "\<And>s. is_pow s \<Longrightarrow> weight (snd (power_te (next_token s))) < weight s"
      using production_weight(1) operand_shorter
      by (metis is_pow_def le_less_trans)
  qed (subst factor_loop.simps,
      auto simp: is_pow_def Let_def cong: prod.case_cong option.case_cong)
  show "chain_tree a [(f, b), (g, c)] = binary g (binary f a b) c"
    by (simp add: chain_tree_def)
qed code_simp+

theorem chains_associate_left_witness:
  "\<exists>ops. chain sign_token (\<lambda>s. pointer_of (u s)) term_te
       (snd (term_te (next_token (initial_state [] ''2-3-4'' None 0)))) ops
       \<lparr>start = ''2-3-4'', next = [], type = TOK_END, u = Value (Fin 4), context = 0,
        lookup = None, lookup_len = 0, heap = [], ub = False\<rparr>
     \<and> binary (FunPtr ''sub'')
          (binary (FunPtr ''sub'') (Node TE_CONSTANT (Value (Fin 2)) [] 0)
             (Node TE_CONSTANT (Value (Fin 3)) [] 0))
          (Node TE_CONSTANT (Value (Fin 4)) [] 0)
       = chain_tree (Node TE_CONSTANT (Value (Fin 2)) [] 0) ops"
proof -
  let ?s = "snd (term_te (next_token (initial_state [] ''2-3-4'' None 0)))"
  let ?s' = "\<lparr>start = ''2-3-4'', next = [], type = TOK_END, u = Value (Fin 4), context = 0,
        lookup = None, lookup_len = 0, heap = [], ub = False\<rparr>"
  let ?t = "binary (FunPtr ''sub'')
          (binary (FunPtr ''sub'') (Node TE_CONSTANT (Value (Fin 2)) [] 0)
             (Node TE_CONSTANT (Value (Fin 3)) [] 0))
          (Node TE_CONSTANT (Value (Fin 4)) [] 0)"
  have run: "expr_loop (Node TE_CONSTANT (Value (Fin 2)) [] 0) ?s = (Some ?t, ?s')"
    by code_simp
  from chains_associate_left [of "Node TE_CONSTANT (Value (Fin 2)) [] 0" ?s ?t ?s'] run
  show ?thesis by blast
qed


subsection \<open>Function calls\<close>

text \<open>The type of a token for a function or closure of two to seven arguments, the
  condition of the last function case of \<open>base\<close>.\<close>

definition multi_arity :: "int \<Rightarrow> bool" where
  "multi_arity t = ((TE_FUNCTION2 \<le> TYPE_MASK t \<and> TYPE_MASK t \<le> TE_FUNCTION7)
     \<or> (TE_CLOSURE2 \<le> TYPE_MASK t \<and> TYPE_MASK t \<le> TE_CLOSURE7))"

lemma multi_arity_ARITY: "multi_arity t \<Longrightarrow> 2 \<le> ARITY t \<and> ARITY t \<le> 7"
proof -
  assume m: "multi_arity t"
  have a: "t AND 24 = (t AND 31) AND 24" "t AND 7 = (t AND 31) AND 7"
    by (simp_all add: and.assoc)
  from m have "t AND 31 \<in> {10, 11, 12, 13, 14, 15, 18, 19, 20, 21, 22, 23}"
    unfolding multi_arity_def TYPE_MASK_def by auto
  then show ?thesis
    unfolding ARITY_def by (auto simp: a)
qed

lemma base_multi:
  "multi_arity (type s) \<Longrightarrow>
   base s =
     (let s1 = next_token s
      in if type s1 \<noteq> TOK_OPEN then (None, s1\<lparr>type := TOK_ERROR\<rparr>)
         else
           (case base_loop (ARITY (type s)) 0 [] s1 of
              (None, s2) \<Rightarrow> (None, s2)
            | (Some (i, params), s2) \<Rightarrow>
                if type s2 \<noteq> TOK_CLOSE \<or> i \<noteq> ARITY (type s) - 1 then
                  (None, s2\<lparr>type := TOK_ERROR,
                            ub := (ub s2 \<or> int (length params) < ARITY (type s))\<rparr>)
                else
                  (case new_expr (type s) params (next_token s2) of
                     (None, s3) \<Rightarrow> (None, s3)
                   | (Some ret, s3) \<Rightarrow>
                       (let ret = set_function ret (pointer_of (u s))
                        in (Some (if IS_CLOSURE (type s) then set_context ret (context s)
                                  else ret),
                            s3)))))"
  by (subst base.simps) (auto simp: multi_arity_def Let_def)

text \<open>
  A parenthesised list of \<open>k\<close> arguments, as the grammar of the specification has it.
  \<open>arguments k s\<close>: after the token of \<open>s\<close> (the parenthesis or a comma) come \<open>k\<close>
  expressions, each but the last followed by a comma; the result is the trees of these
  expressions, in the order of the source text, and the cursor after the last of them.
  \<open>call_args k s\<close>: the token of \<open>s\<close> is the opening parenthesis of a list of exactly \<open>k\<close>
  expressions, closed by a parenthesis.
\<close>

fun arguments :: "nat \<Rightarrow> state \<Rightarrow> (te_expr list \<times> state) option" where
  "arguments 0 s = None"
| "arguments (Suc k) s =
     (case expr (next_token s) of
        (None, s1) \<Rightarrow> None
      | (Some e, s1) \<Rightarrow>
          if k = 0 then Some ([e], s1)
          else if type s1 = TOK_SEP then
            (case arguments k s1 of
               None \<Rightarrow> None
             | Some (es, s') \<Rightarrow> Some (e # es, s'))
          else None)"

definition call_args :: "nat \<Rightarrow> state \<Rightarrow> bool" where
  "call_args k s =
     (type s = TOK_OPEN
      \<and> (if k = 0 then type (next_token s) = TOK_CLOSE
         else (case arguments k s of None \<Rightarrow> False | Some (es, s') \<Rightarrow> type s' = TOK_CLOSE)))"

lemma arguments_length: "arguments k s = Some (es, s') \<Longrightarrow> length es = k"
proof (induction k arbitrary: s es)
  case 0
  then show ?case by simp
next
  case (Suc k)
  obtain p s1 where e: "expr (next_token s) = (p, s1)"
    by (cases "expr (next_token s)")
  from Suc.prems e obtain q where q: "p = Some q"
    by (cases p) auto
  show ?case
  proof (cases k)
    case 0
    with Suc.prems e q show ?thesis by auto
  next
    case (Suc k')
    with Suc.prems e q obtain es' where "arguments k s1 = Some (es', s')" "es = q # es'"
      by (auto split: if_splits option.splits)
    with Suc.IH show ?thesis by auto
  qed
qed

text \<open>The loop of \<open>base\<close> stores the arguments it reads in \<open>params\<close>, one after the other.
  Of a longer list it reads the first \<open>N\<close> and stops at the comma after them.\<close>

lemma base_loop_too_many:
  "arguments k s = Some (es, s') \<Longrightarrow> m < k \<Longrightarrow> 0 < m \<Longrightarrow> int m = N - i \<Longrightarrow>
   \<exists>sN. base_loop N i ps s = (Some (N, ps @ take m es), sN)
      \<and> arguments m s = Some (take m es, sN)"
proof (induction m arbitrary: k s i ps es)
  case 0
  then show ?case by simp
next
  case (Suc m)
  from Suc.prems(2) obtain k' where k: "k = Suc k'" "Suc m \<le> k'"
    by (cases k) auto
  obtain p s1 where e: "expr (next_token s) = (p, s1)"
    by (cases "expr (next_token s)")
  from Suc.prems(1) k e obtain q where q: "p = Some q"
    by (cases p) auto
  from Suc.prems(1) k e q obtain es' where sep: "type s1 = TOK_SEP"
    and rest: "arguments k' s1 = Some (es', s')" and es: "es = q # es'"
    by (auto split: if_splits option.splits)
  have lt: "i < N" using Suc.prems(4) by linarith
  have step: "base_loop N i ps s = base_loop N (i + 1) (ps @ [q]) s1"
    using lt e q sep by (simp add: base_loop.simps [of N i ps s])
  show ?case
  proof (cases m)
    case 0
    then have "i + 1 = N" using Suc.prems(4) by simp
    then have "base_loop N (i + 1) (ps @ [q]) s1 = (Some (N, ps @ [q]), s1)"
      by (simp add: base_loop.simps [of N N "ps @ [q]" s1])
    with step 0 e q es show ?thesis by simp
  next
    case (Suc m')
    have "\<exists>sN. base_loop N (i + 1) (ps @ [q]) s1 = (Some (N, (ps @ [q]) @ take m es'), sN)
        \<and> arguments m s1 = Some (take m es', sN)"
    proof (rule Suc.IH [OF rest])
      show "m < k'" using k by simp
      show "0 < m" using Suc by simp
      show "int m = N - (i + 1)" using Suc.prems(4) by simp
    qed
    then obtain sN where r: "base_loop N (i + 1) (ps @ [q]) s1 = (Some (N, (ps @ [q]) @ take m es'), sN)"
      "arguments m s1 = Some (take m es', sN)"
      by blast
    have "arguments (Suc m) s = Some (q # take m es', sN)"
      using e q sep r(2) Suc by simp
    with step r es show ?thesis by simp
  qed
qed

lemma too_many_arguments:
  assumes multi: "multi_arity (type s)"
    and args: "call_args k (next_token s)"
    and many: "ARITY (type s) < int k"
  shows "\<exists>es sN. arguments (nat (ARITY (type s))) (next_token s) = Some (es, sN)
     \<and> base s = (None, sN\<lparr>type := TOK_ERROR\<rparr>)"
proof -
  let ?N = "ARITY (type s)"
  let ?s1 = "next_token s"
  have N: "2 \<le> ?N" using multi_arity_ARITY [OF multi] by simp
  from args many N obtain es s' where a: "arguments k ?s1 = Some (es, s')"
    and opn: "type ?s1 = TOK_OPEN"
    by (auto simp: call_args_def split: option.splits if_splits)
  have "\<exists>sN. base_loop ?N 0 [] ?s1 = (Some (?N, [] @ take (nat ?N) es), sN)
      \<and> arguments (nat ?N) ?s1 = Some (take (nat ?N) es, sN)"
    using many N by (intro base_loop_too_many [OF a]) simp_all
  then obtain sN where r: "base_loop ?N 0 [] ?s1 = (Some (?N, take (nat ?N) es), sN)"
    "arguments (nat ?N) ?s1 = Some (take (nat ?N) es, sN)"
    by auto
  have "length (take (nat ?N) es) = nat ?N"
    using r(2) by (rule arguments_length)
  then have full: "\<not> int (length (take (nat ?N) es)) < ?N"
    using N by simp
  have "sN\<lparr>type := TOK_ERROR, ub := ub sN\<rparr> = sN\<lparr>type := TOK_ERROR\<rparr>"
    by simp
  then have "base s = (None, sN\<lparr>type := TOK_ERROR\<rparr>)"
    using opn r(1) full N by (simp add: base_multi [OF multi] Let_def)
  with r(2) show ?thesis by blast
qed

text \<open>A list that ends before the loop has run \<open>N\<close> times is read whole: \<open>params\<close> holds
  its expressions in the order of the source text.\<close>

lemma base_loop_exact:
  "arguments k s = Some (es, s') \<Longrightarrow> type s' \<noteq> TOK_SEP \<Longrightarrow> int k \<le> N - i \<Longrightarrow>
   base_loop N i ps s = (Some (i + int k - 1, ps @ es), s')"
proof (induction k arbitrary: s i ps es)
  case 0
  then show ?case by simp
next
  case (Suc k)
  obtain p s1 where e: "expr (next_token s) = (p, s1)"
    by (cases "expr (next_token s)")
  from Suc.prems(1) e obtain q where q: "p = Some q"
    by (cases p) auto
  have lt: "i < N" using Suc.prems(3) by linarith
  show ?case
  proof (cases k)
    case 0
    with Suc.prems(1) e q have "s1 = s'" "es = [q]" by simp_all
    with Suc.prems(2) lt e q 0 show ?thesis
      by (simp add: base_loop.simps [of N i ps s])
  next
    case (Suc k')
    with Suc.prems(1) e q obtain es' where sep: "type s1 = TOK_SEP"
      and rest: "arguments k s1 = Some (es', s')" and es: "es = q # es'"
      by (auto split: if_splits option.splits)
    have r: "base_loop N (i + 1) (ps @ [q]) s1 = (Some (i + 1 + int k - 1, (ps @ [q]) @ es'), s')"
      using Suc.prems(2,3) by (intro Suc.IH [OF rest]) simp_all
    have "base_loop N i ps s = base_loop N (i + 1) (ps @ [q]) s1"
      using lt e q sep by (simp add: base_loop.simps [of N i ps s])
    with r es show ?thesis by simp
  qed
qed

text \<open>With fewer arguments than the arity (and at least one), \<open>base\<close> returns no node
  either, but on its way it frees the entries of \<open>params\<close> that were never assigned.\<close>

lemma too_few_arguments:
  assumes multi: "multi_arity (type s)"
    and args: "call_args k (next_token s)"
    and few: "0 < k" "int k < ARITY (type s)"
  shows "fst (base s) = None \<and> ub (snd (base s))"
proof -
  let ?N = "ARITY (type s)"
  let ?s1 = "next_token s"
  from args few obtain es s' where a: "arguments k ?s1 = Some (es, s')"
    and opn: "type ?s1 = TOK_OPEN" and cls: "type s' = TOK_CLOSE"
    by (auto simp: call_args_def split: option.splits if_splits)
  have "base_loop ?N 0 [] ?s1 = (Some (0 + int k - 1, [] @ es), s')"
    using cls few by (intro base_loop_exact [OF a]) simp_all
  then have r: "base_loop ?N 0 [] ?s1 = (Some (int k - 1, es), s')"
    by simp
  have "length es = k"
    using a by (rule arguments_length)
  then show ?thesis
    using opn r few by (simp add: base_multi [OF multi] Let_def)
qed

text \<open>With as many arguments as the arity, \<open>base\<close> builds the call node from them: its
  children are the trees of the arguments, in the order of the source text.\<close>

lemma matching_arguments:
  assumes multi: "multi_arity (type s)"
    and args: "call_args (nat (ARITY (type s))) (next_token s)"
  shows "\<exists>ps s'. arguments (nat (ARITY (type s))) (next_token s) = Some (ps, s')
     \<and> length ps = nat (ARITY (type s))
     \<and> base s =
        (case new_expr (type s) ps (next_token s') of
           (None, s3) \<Rightarrow> (None, s3)
         | (Some ret, s3) \<Rightarrow>
             (Some (if IS_CLOSURE (type s)
                    then set_context (set_function ret (pointer_of (u s))) (context s)
                    else set_function ret (pointer_of (u s))),
              s3))
     \<and> (fst (malloc (next_token s')) \<longrightarrow>
          base s =
            (Some (Node (type s) (Function (pointer_of (u s))) ps
                     (if IS_CLOSURE (type s) then context s else 0)),
             snd (malloc (next_token s'))))"
proof -
  let ?N = "ARITY (type s)"
  let ?s1 = "next_token s"
  have N: "2 \<le> ?N" using multi_arity_ARITY [OF multi] by simp
  from args N obtain ps s' where a: "arguments (nat ?N) ?s1 = Some (ps, s')"
    and opn: "type ?s1 = TOK_OPEN" and cls: "type s' = TOK_CLOSE"
    by (auto simp: call_args_def split: option.splits if_splits)
  have len: "length ps = nat ?N"
    using a by (rule arguments_length)
  have "base_loop ?N 0 [] ?s1 = (Some (0 + int (nat ?N) - 1, [] @ ps), s')"
    using cls N by (intro base_loop_exact [OF a]) simp_all
  then have r: "base_loop ?N 0 [] ?s1 = (Some (?N - 1, ps), s')"
    using N by simp
  have b: "base s =
        (case new_expr (type s) ps (next_token s') of
           (None, s3) \<Rightarrow> (None, s3)
         | (Some ret, s3) \<Rightarrow>
             (Some (if IS_CLOSURE (type s)
                    then set_context (set_function ret (pointer_of (u s))) (context s)
                    else set_function ret (pointer_of (u s))),
              s3))"
    using opn r cls
    by (simp add: base_multi [OF multi] Let_def cong: prod.case_cong option.case_cong)
  have "base s =
            (Some (Node (type s) (Function (pointer_of (u s))) ps
                     (if IS_CLOSURE (type s) then context s else 0)),
             snd (malloc (next_token s')))"
    if "fst (malloc (next_token s'))"
    using that len unfolding b new_expr_def
    by (cases "malloc (next_token s')") simp
  with a len b show ?thesis by blast
qed

lemma base_unary:
  "TYPE_MASK (type s) = TE_FUNCTION1 \<or> TYPE_MASK (type s) = TE_CLOSURE1 \<Longrightarrow>
   base s =
     (case power_te (next_token s) of
        (None, s2) \<Rightarrow> (None, s2)
      | (Some p0, s2) \<Rightarrow>
          (case new_expr (type s) [p0] s2 of
             (None, s3) \<Rightarrow> (None, s3)
           | (Some ret, s3) \<Rightarrow>
               (Some (if IS_CLOSURE (type s)
                      then set_context (set_function ret (pointer_of (u s))) (context s)
                      else set_function ret (pointer_of (u s))),
                s3)))"
  by (subst base.simps) (auto simp: Let_def cong: prod.case_cong option.case_cong)

lemma base_nullary:
  "TYPE_MASK (type s) = TE_FUNCTION0 \<or> TYPE_MASK (type s) = TE_CLOSURE0 \<Longrightarrow>
   malloc s = (True, s1) \<Longrightarrow>
   base s =
     (let node = Node (type s) (Function (pointer_of (u s))) []
                   (if IS_CLOSURE (type s) then context s else 0);
          s2 = next_token s1
      in if type s2 \<noteq> TOK_OPEN then (Some node, s2)
         else if type (next_token s2) = TOK_CLOSE then (Some node, next_token (next_token s2))
         else (Some node, (next_token s2)\<lparr>type := TOK_ERROR\<rparr>))"
  by (subst base.simps) (auto simp: Let_def new_expr_def)

lemma no_root_no_tree:
  "fst (list_te (next_token (initial_state ms e vs n))) = None \<Longrightarrow>
   te_compile env ms e vs n \<noteq> Returned (Some t, err)"
  by (cases "list_te (next_token (initial_state ms e vs n))")
    (simp add: te_compile_def Let_def)

text \<open>A caller's function \<open>f\<close> of three arguments, not pure, for the examples.\<close>

definition fun_f :: te_variable where
  "fun_f = \<lparr>name = ''f'', address = ExtPtr ''f'', var_type = TE_FUNCTION3, var_context = 0\<rparr>"

text \<open>
  Claim C1, amended.  For a function token of declared arity \<open>N \<ge> 2\<close>: a parenthesised
  list of more than \<open>N\<close> expressions is rejected (\<open>base\<close> stops after the \<open>N\<close>-th, returns
  no node and leaves \<open>TOK_ERROR\<close>, so that \<open>te_compile\<close> returns no tree), and a list of
  exactly \<open>N\<close> is built into the call node: \<open>base\<close> is at the token after the closing
  parenthesis and, when the node is allocated, returns the node of the function whose
  children are the trees of the \<open>N\<close> expressions, in the order of the source text (so
  \<open>f(1,2,3)\<close> is the call of \<open>f\<close> with the children 1, 2 and 3).  For arity 1 the argument
  is one \<open>power\<close> production, so that a parenthesised list of two expressions is one
  argument, the comma list.
\<close>

theorem wrong_argument_count:
  "(multi_arity (type s) \<and> call_args k (next_token s) \<and> ARITY (type s) < int k \<longrightarrow>
      (\<exists>es sN. arguments (nat (ARITY (type s))) (next_token s) = Some (es, sN)
         \<and> base s = (None, sN\<lparr>type := TOK_ERROR\<rparr>)))
   \<and> (multi_arity (type s) \<and> call_args (nat (ARITY (type s))) (next_token s) \<longrightarrow>
      (\<exists>ps s'. arguments (nat (ARITY (type s))) (next_token s) = Some (ps, s')
         \<and> length ps = nat (ARITY (type s))
         \<and> base s =
            (case new_expr (type s) ps (next_token s') of
               (None, s3) \<Rightarrow> (None, s3)
             | (Some ret, s3) \<Rightarrow>
                 (Some (if IS_CLOSURE (type s)
                        then set_context (set_function ret (pointer_of (u s))) (context s)
                        else set_function ret (pointer_of (u s))),
                  s3))
         \<and> (fst (malloc (next_token s')) \<longrightarrow>
              base s =
                (Some (Node (type s) (Function (pointer_of (u s))) ps
                         (if IS_CLOSURE (type s) then context s else 0)),
                 snd (malloc (next_token s'))))))
   \<and> (fst (list_te (next_token (initial_state ms e vs n))) = None \<longrightarrow>
        te_compile env ms e vs n \<noteq> Returned (Some t, err))
   \<and> (TYPE_MASK (type s) = TE_FUNCTION1 \<or> TYPE_MASK (type s) = TE_CLOSURE1 \<longrightarrow>
        base s =
          (case power_te (next_token s) of
             (None, s2) \<Rightarrow> (None, s2)
           | (Some p0, s2) \<Rightarrow>
               (case new_expr (type s) [p0] s2 of
                  (None, s3) \<Rightarrow> (None, s3)
                | (Some ret, s3) \<Rightarrow>
                    (Some (if IS_CLOSURE (type s)
                           then set_context (set_function ret (pointer_of (u s))) (context s)
                           else set_function ret (pointer_of (u s))),
                     s3))))
   \<and> fst (list_te (next_token (initial_state [] ''atan2(1,2,3)'' None 0))) = None
   \<and> te_compile env [] ''atan2(1,2)'' None 0 =
       Returned (Some (Node TE_CONSTANT (Value (extern env ''atan2'' None [Fin 1, Fin 2])) [] 0), 0)
   \<and> te_compile env [] ''f(1,2,3)'' (Some [fun_f]) 1 =
       Returned (Some (Node TE_FUNCTION3 (Function (ExtPtr ''f''))
          [Node TE_CONSTANT (Value (Fin 1)) [] 0, Node TE_CONSTANT (Value (Fin 2)) [] 0,
           Node TE_CONSTANT (Value (Fin 3)) [] 0] 0), 0)
   \<and> fst (list_te (next_token (initial_state [] ''f(1,2,3,4)'' (Some [fun_f]) 1))) = None
   \<and> fst (list_te (next_token (initial_state [] ''sqrt(4,9)'' None 0))) =
       Some (Node (TE_FUNCTION1 OR TE_FLAG_PURE) (Function (ExtPtr ''sqrt''))
          [binary (FunPtr ''comma'') (Node TE_CONSTANT (Value (Fin 4)) [] 0)
             (Node TE_CONSTANT (Value (Fin 9)) [] 0)] 0)"
proof (intro conjI impI)
  assume "multi_arity (type s) \<and> call_args k (next_token s) \<and> ARITY (type s) < int k"
  then show "\<exists>es sN. arguments (nat (ARITY (type s))) (next_token s) = Some (es, sN)
         \<and> base s = (None, sN\<lparr>type := TOK_ERROR\<rparr>)"
    using too_many_arguments [of s k] by blast
next
  assume "multi_arity (type s) \<and> call_args (nat (ARITY (type s))) (next_token s)"
  then show "\<exists>ps s'. arguments (nat (ARITY (type s))) (next_token s) = Some (ps, s')
         \<and> length ps = nat (ARITY (type s))
         \<and> base s =
            (case new_expr (type s) ps (next_token s') of
               (None, s3) \<Rightarrow> (None, s3)
             | (Some ret, s3) \<Rightarrow>
                 (Some (if IS_CLOSURE (type s)
                        then set_context (set_function ret (pointer_of (u s))) (context s)
                        else set_function ret (pointer_of (u s))),
                  s3))
         \<and> (fst (malloc (next_token s')) \<longrightarrow>
              base s =
                (Some (Node (type s) (Function (pointer_of (u s))) ps
                         (if IS_CLOSURE (type s) then context s else 0)),
                 snd (malloc (next_token s'))))"
    using matching_arguments [of s] by blast
next
  assume "fst (list_te (next_token (initial_state ms e vs n))) = None"
  then show "te_compile env ms e vs n \<noteq> Returned (Some t, err)"
    by (rule no_root_no_tree)
next
  assume "TYPE_MASK (type s) = TE_FUNCTION1 \<or> TYPE_MASK (type s) = TE_CLOSURE1"
  then show "base s =
          (case power_te (next_token s) of
             (None, s2) \<Rightarrow> (None, s2)
           | (Some p0, s2) \<Rightarrow>
               (case new_expr (type s) [p0] s2 of
                  (None, s3) \<Rightarrow> (None, s3)
                | (Some ret, s3) \<Rightarrow>
                    (Some (if IS_CLOSURE (type s)
                           then set_context (set_function ret (pointer_of (u s))) (context s)
                           else set_function ret (pointer_of (u s))),
                     s3)))"
    by (rule base_unary)
qed (code_simp, simp?)+

theorem wrong_argument_count_witness:
  "(\<exists>es sN. arguments 2 (next_token (next_token (initial_state [] ''atan2(1,2,3)'' None 0)))
        = Some (es, sN)
     \<and> base (next_token (initial_state [] ''atan2(1,2,3)'' None 0))
        = (None, sN\<lparr>type := TOK_ERROR\<rparr>))
   \<and> fst (base (next_token (initial_state [] ''f(1,2,3)'' (Some [fun_f]) 1))) =
       Some (Node TE_FUNCTION3 (Function (ExtPtr ''f''))
          [Node TE_CONSTANT (Value (Fin 1)) [] 0, Node TE_CONSTANT (Value (Fin 2)) [] 0,
           Node TE_CONSTANT (Value (Fin 3)) [] 0] 0)"
proof
  let ?s = "next_token (initial_state [] ''atan2(1,2,3)'' None 0)"
  have m: "multi_arity (type ?s)" by code_simp
  have c: "call_args 3 (next_token ?s)" by code_simp
  have a: "ARITY (type ?s) = 2" by code_simp
  from wrong_argument_count [of ?s 3] m c a
  show "\<exists>es sN. arguments 2 (next_token ?s) = Some (es, sN)
     \<and> base ?s = (None, sN\<lparr>type := TOK_ERROR\<rparr>)"
    by simp
next
  let ?t = "next_token (initial_state [] ''f(1,2,3)'' (Some [fun_f]) 1)"
  let ?ps = "[Node TE_CONSTANT (Value (Fin 1)) [] 0, Node TE_CONSTANT (Value (Fin 2)) [] 0,
           Node TE_CONSTANT (Value (Fin 3)) [] 0]"
  have m: "multi_arity (type ?t)" by code_simp
  have a: "ARITY (type ?t) = 3" by code_simp
  have c: "call_args 3 (next_token ?t)" by code_simp
  have t: "type ?t = TE_FUNCTION3" "pointer_of (u ?t) = ExtPtr ''f''" "\<not> IS_CLOSURE (type ?t)"
    by code_simp+
  have ps: "map_option fst (arguments 3 (next_token ?t)) = Some ?ps"
    by code_simp
  have ok: "fst (malloc (next_token (snd (the (arguments 3 (next_token ?t))))))"
    by code_simp
  have "\<exists>ps s'. arguments 3 (next_token ?t) = Some (ps, s')
      \<and> (fst (malloc (next_token s')) \<longrightarrow>
        base ?t = (Some (Node (type ?t) (Function (pointer_of (u ?t))) ps
                     (if IS_CLOSURE (type ?t) then context ?t else 0)),
                   snd (malloc (next_token s'))))"
    using wrong_argument_count [of ?t, THEN conjunct2, THEN conjunct1] m c a by auto
  then obtain ps s' where r: "arguments 3 (next_token ?t) = Some (ps, s')"
    and b: "fst (malloc (next_token s')) \<longrightarrow>
        base ?t = (Some (Node (type ?t) (Function (pointer_of (u ?t))) ps
                     (if IS_CLOSURE (type ?t) then context ?t else 0)),
                   snd (malloc (next_token s')))"
    by blast
  from ps r have "ps = ?ps" by simp
  moreover from ok r have "fst (malloc (next_token s'))" by simp
  ultimately show "fst (base ?t) = Some (Node TE_FUNCTION3 (Function (ExtPtr ''f'')) ?ps 0)"
    using b t by simp
qed



text \<open>
  Claim C4, amended.  After a function token of declared arity \<open>N \<ge> 2\<close> the parser
  requires an opening parenthesis: without it \<open>base\<close> returns no node and leaves
  \<open>TOK_ERROR\<close>.  After a token of arity 1 it parses one \<open>power\<close> production and requires no
  parenthesis (\<open>sqrt 4\<close>).  After a token of arity 0 it accepts an empty pair of
  parentheses, or no parenthesis at all, and then reads no further; an opening
  parenthesis followed by anything but the closing one is an error.
\<close>

theorem parenthesis_after_function:
  "(multi_arity (type s) \<and> type (next_token s) \<noteq> TOK_OPEN \<longrightarrow>
      base s = (None, (next_token s)\<lparr>type := TOK_ERROR\<rparr>))
   \<and> ((TYPE_MASK (type s) = TE_FUNCTION0 \<or> TYPE_MASK (type s) = TE_CLOSURE0)
        \<and> malloc s = (True, s1) \<longrightarrow>
      base s =
        (let node = Node (type s) (Function (pointer_of (u s))) []
                      (if IS_CLOSURE (type s) then context s else 0);
             s2 = next_token s1
         in if type s2 \<noteq> TOK_OPEN then (Some node, s2)
            else if type (next_token s2) = TOK_CLOSE then (Some node, next_token (next_token s2))
            else (Some node, (next_token s2)\<lparr>type := TOK_ERROR\<rparr>)))
   \<and> fst (list_te (next_token (initial_state [] ''atan2 1'' None 0))) = None
   \<and> te_compile env [] ''sqrt 4'' None 0 =
       Returned (Some (Node TE_CONSTANT (Value (extern env ''sqrt'' None [Fin 4])) [] 0), 0)
   \<and> te_compile env [] ''pi'' None 0 =
       Returned (Some (Node TE_CONSTANT (Value (extern env ''pi'' None [])) [] 0), 0)
   \<and> te_compile env [] ''pi()'' None 0 =
       Returned (Some (Node TE_CONSTANT (Value (extern env ''pi'' None [])) [] 0), 0)
   \<and> te_compile env [] ''pi(1)'' None 0 = Returned (None, 4)"
proof (intro conjI impI)
  assume "multi_arity (type s) \<and> type (next_token s) \<noteq> TOK_OPEN"
  then show "base s = (None, (next_token s)\<lparr>type := TOK_ERROR\<rparr>)"
    by (simp add: base_multi Let_def)
next
  assume "(TYPE_MASK (type s) = TE_FUNCTION0 \<or> TYPE_MASK (type s) = TE_CLOSURE0)
        \<and> malloc s = (True, s1)"
  then show "base s =
        (let node = Node (type s) (Function (pointer_of (u s))) []
                      (if IS_CLOSURE (type s) then context s else 0);
             s2 = next_token s1
         in if type s2 \<noteq> TOK_OPEN then (Some node, s2)
            else if type (next_token s2) = TOK_CLOSE then (Some node, next_token (next_token s2))
            else (Some node, (next_token s2)\<lparr>type := TOK_ERROR\<rparr>))"
    using base_nullary [of s s1] by blast
qed (code_simp, simp?)+

theorem parenthesis_after_function_witness:
  "base (next_token (initial_state [] ''atan2 1'' None 0)) =
     (None, \<lparr>start = ''atan2 1'', next = [], type = TOK_ERROR, u = Value (Fin 1), context = 0,
             lookup = None, lookup_len = 0, heap = [], ub = False\<rparr>)
   \<and> base (next_token (initial_state [] ''pi()+1'' None 0)) =
     (Some (Node (TE_FUNCTION0 OR TE_FLAG_PURE) (Function (FunPtr ''pi'')) [] 0),
      \<lparr>start = ''pi()+1'', next = ''1'', type = TOK_INFIX, u = Function (FunPtr ''add''),
       context = 0, lookup = None, lookup_len = 0, heap = [], ub = False\<rparr>)"
proof -
  let ?s = "next_token (initial_state [] ''atan2 1'' None 0)"
  let ?p = "next_token (initial_state [] ''pi()+1'' None 0)"
  have m: "multi_arity (type ?s)" by code_simp
  have n: "type (next_token ?s) \<noteq> TOK_OPEN" by code_simp
  have e: "(next_token ?s)\<lparr>type := TOK_ERROR\<rparr> =
     \<lparr>start = ''atan2 1'', next = [], type = TOK_ERROR, u = Value (Fin 1), context = 0,
      lookup = None, lookup_len = 0, heap = [], ub = False\<rparr>"
    by code_simp
  have z: "TYPE_MASK (type ?p) = TE_FUNCTION0 \<or> TYPE_MASK (type ?p) = TE_CLOSURE0" by code_simp
  have ml: "malloc ?p = (True, ?p)" by code_simp
  have r: "(let node = Node (type ?p) (Function (pointer_of (u ?p))) []
                      (if IS_CLOSURE (type ?p) then context ?p else 0);
             s2 = next_token ?p
         in if type s2 \<noteq> TOK_OPEN then (Some node, s2)
            else if type (next_token s2) = TOK_CLOSE then (Some node, next_token (next_token s2))
            else (Some node, (next_token s2)\<lparr>type := TOK_ERROR\<rparr>)) =
     (Some (Node (TE_FUNCTION0 OR TE_FLAG_PURE) (Function (FunPtr ''pi'')) [] 0),
      \<lparr>start = ''pi()+1'', next = ''1'', type = TOK_INFIX, u = Function (FunPtr ''add''),
       context = 0, lookup = None, lookup_len = 0, heap = [], ub = False\<rparr>)"
    by code_simp
  from parenthesis_after_function [of ?s] m n e
  have a: "base ?s = (None, \<lparr>start = ''atan2 1'', next = [], type = TOK_ERROR, u = Value (Fin 1),
      context = 0, lookup = None, lookup_len = 0, heap = [], ub = False\<rparr>)"
    by simp
  from parenthesis_after_function [of ?p ?p] z ml r
  have b: "base ?p = (Some (Node (TE_FUNCTION0 OR TE_FLAG_PURE) (Function (FunPtr ''pi'')) [] 0),
      \<lparr>start = ''pi()+1'', next = ''1'', type = TOK_INFIX, u = Function (FunPtr ''add''),
       context = 0, lookup = None, lookup_len = 0, heap = [], ub = False\<rparr>)"
    by simp
  from a b show ?thesis by blast
qed


subsection \<open>The error position\<close>

text \<open>\<open>advances s s'\<close>: the cursor \<open>s'\<close> is in the same source as \<open>s\<close>, at the same place or
  further on.\<close>

definition advances :: "state \<Rightarrow> state \<Rightarrow> bool" where
  "advances s s' = (start s' = start s \<and> (\<exists>cs. next s = cs @ next s'))"

lemma advances_refl: "advances s s"
  by (simp add: advances_def)

lemma advances_trans: "advances a b \<Longrightarrow> advances b c \<Longrightarrow> advances a c"
  by (auto simp: advances_def)

lemma advances_same: "start s' = start s \<Longrightarrow> next s' = next s \<Longrightarrow> advances s s'"
  by (simp add: advances_def)

lemma drop_digits_suffix: "\<exists>cs. r = cs @ dropWhile isdigit r"
  by (metis takeWhile_dropWhile_id)

lemma strtod_exponent_suffix: "\<exists>cs. r = cs @ snd (strtod_exponent r)"
proof (cases r)
  case Nil
  then show ?thesis by (simp add: strtod_exponent_def)
next
  case (Cons c r1)
  have a: "\<And>x. \<exists>cs. c # x = cs @ dropWhile isdigit x"
    by (metis takeWhile_dropWhile_id append_Cons)
  have b: "\<And>sg x. \<exists>cs. c # sg # x = cs @ dropWhile isdigit x"
    by (metis takeWhile_dropWhile_id append_Cons)
  show ?thesis
    using Cons a [of r1] b
    by (cases r1) (auto simp: strtod_exponent_def Let_def)
qed

lemma strtod_fraction_suffix: "\<exists>cs. r = cs @ snd (strtod_fraction r)"
proof (cases r)
  case Nil
  then show ?thesis by (simp add: strtod_fraction_def)
next
  case (Cons c r1)
  have "\<exists>cs. c # r1 = cs @ dropWhile isdigit r1"
    by (metis takeWhile_dropWhile_id append_Cons)
  with Cons show ?thesis
    by (auto simp: strtod_fraction_def)
qed

lemma strtod_suffix: "\<exists>cs. s = cs @ snd (strtod s)"
proof -
  obtain fp r2 where f: "strtod_fraction (dropWhile isdigit s) = (fp, r2)"
    by (cases "strtod_fraction (dropWhile isdigit s)")
  obtain ex r3 where e: "strtod_exponent r2 = (ex, r3)"
    by (cases "strtod_exponent r2")
  obtain a where a: "s = a @ dropWhile isdigit s"
    using drop_digits_suffix by blast
  obtain b where b: "dropWhile isdigit s = b @ r2"
    using strtod_fraction_suffix [of "dropWhile isdigit s"] f by auto
  obtain c where c: "r2 = c @ r3"
    using strtod_exponent_suffix [of r2] e by auto
  have "s = (a @ b @ c) @ r3"
    using a b c by (metis append_assoc)
  then have "\<exists>cs. s = cs @ r3" by blast
  then show ?thesis
    by (auto simp: strtod_def Let_def f e)
qed

lemma var_token_start: "start (var_token s v) = start s"
  by (simp add: var_token_def Let_def)

lemma next_token_body_start: "start (next_token_body s c cs) = start s"
proof -
  consider (num) "isdigit c \<or> c = CHR ''.''"
    | (ident) "\<not> (isdigit c \<or> c = CHR ''.'')" "isalpha c"
    | (other) "\<not> (isdigit c \<or> c = CHR ''.'')" "\<not> isalpha c"
    by blast
  then show ?thesis
  proof cases
    case num
    obtain v r where "strtod (c # cs) = (v, r)" by (cases "strtod (c # cs)")
    with num show ?thesis
      by (simp add: next_token_body_def)
  next
    case ident
    then show ?thesis
      by (simp add: next_token_body_def Let_def var_token_start split: option.splits)
  next
    case other
    then show ?thesis
      by (simp add: next_token_body_def Let_def infix_token_def)
  qed
qed

lemma next_token_body_advances: "next s = c # cs \<Longrightarrow> advances s (next_token_body s c cs)"
proof -
  assume n: "next s = c # cs"
  have st: "start (next_token_body s c cs) = start s"
    by (rule next_token_body_start)
  consider (num) "isdigit c \<or> c = CHR ''.''"
    | (ident) "\<not> (isdigit c \<or> c = CHR ''.'')" "isalpha c"
    | (other) "\<not> (isdigit c \<or> c = CHR ''.'')" "\<not> isalpha c"
    by blast
  then have "\<exists>xs. c # cs = xs @ next (next_token_body s c cs)"
  proof cases
    case num
    obtain v r where v: "strtod (c # cs) = (v, r)" by (cases "strtod (c # cs)")
    with strtod_suffix [of "c # cs"] num show ?thesis
      by (simp add: next_token_body_def)
  next
    case ident
    have "\<exists>xs. c # cs = xs @ dropWhile is_ident_char cs"
      by (metis takeWhile_dropWhile_id append_Cons)
    with next_token_body_ident_next [OF ident, of s cs] show ?thesis by simp
  next
    case other
    with next_token_body_other_next [OF other, of s cs] show ?thesis by simp
  qed
  with st n show ?thesis
    by (simp add: advances_def)
qed

lemma next_token_loop_advances: "advances s (next_token_loop s)"
proof (induction s rule: next_token_loop.induct)
  case (1 s)
  show ?case
  proof (cases "next s")
    case Nil
    then show ?thesis
      by (simp add: next_token_loop.simps [of s] advances_def)
  next
    case (Cons c cs)
    show ?thesis
    proof (cases "type (next_token_body s c cs) = TOK_NULL")
      case True
      from 1 [OF Cons refl True] next_token_body_advances [OF Cons] True Cons show ?thesis
        by (auto simp: next_token_loop.simps [of s] intro: advances_trans)
    next
      case False
      with next_token_body_advances [OF Cons] Cons show ?thesis
        by (simp add: next_token_loop.simps [of s])
    qed
  qed
qed

lemma next_token_advances: "advances s (next_token s)"
  using next_token_loop_advances [of "s\<lparr>type := TOK_NULL\<rparr>"]
  by (simp add: next_token_def advances_def)

lemma new_expr_advances: "advances s (snd (new_expr t ps s))"
  by (simp add: new_expr_def malloc_def advances_def split: list.splits)

lemma power_signs_advances: "advances s (snd (power_signs sign s))"
proof (induction sign s rule: power_signs.induct)
  case (1 sign s)
  show ?case
  proof (cases "sign_token s")
    case True
    with 1 next_token_advances [of s] show ?thesis
      by (auto simp: power_signs.simps [of sign s] sign_token_def intro: advances_trans)
  next
    case False
    then show ?thesis
      by (auto simp: power_signs.simps [of sign s] sign_token_def advances_refl)
  qed
qed

lemma parser_advances:
  "advances s0 (snd (base s0))"
  "advances s1 (snd (base_loop arity i params s1))"
  "advances s2 (snd (power_te s2))"
  "advances s3 (snd (factor s3))"
  "advances s4 (snd (factor_loop r4 s4))"
  "advances s5 (snd (term_te s5))"
  "advances s6 (snd (term_loop r6 s6))"
  "advances s7 (snd (expr s7))"
  "advances s8 (snd (expr_loop r8 s8))"
  "advances s9 (snd (list_te s9))"
  "advances s10 (snd (list_loop r10 s10))"
proof (induct s0 and arity i params s1 and s2 and s3 and r4 s4 and s5 and r6 s6 and s7 and r8 s8
    and s9 and r10 s10
    rule: base_base_loop_power_te_factor_factor_loop_term_te_term_loop_expr_expr_loop_list_te_list_loop.induct)
  case (1 s)
  let ?m = "TYPE_MASK (type s)"
  have nt: "\<And>x. advances x (next_token x)"
    by (rule next_token_advances)
  have ne: "\<And>t ps x r y. new_expr t ps x = (r, y) \<Longrightarrow> advances x y"
    using new_expr_advances by (metis snd_conv)
  have er: "\<And>x t. advances x (x\<lparr>type := t\<rparr>)"
    by (simp add: advances_def)
  have tr: "\<And>a b c. advances a b \<Longrightarrow> advances b c \<Longrightarrow> advances a c"
    by (rule advances_trans)
  consider (num) "?m = 30" | (var) "?m = 31" | (f0) "?m = 8 \<or> ?m = 16"
    | (f1) "?m = 9 \<or> ?m = 17"
    | (fn) "multi_arity (type s)"
    | (opn) "?m = 28"
    | (other) "?m \<noteq> 30" "?m \<noteq> 31" "\<not> (?m = 8 \<or> ?m = 16)" "\<not> (?m = 9 \<or> ?m = 17)"
        "\<not> (10 \<le> ?m \<and> ?m \<le> 15 \<or> 18 \<le> ?m \<and> ?m \<le> 23)" "?m \<noteq> 28"
    unfolding multi_arity_def by blast
  then show ?case
  proof cases
    case num
    obtain r y where n: "new_expr TE_CONSTANT [] s = (r, y)"
      by (cases "new_expr TE_CONSTANT [] s")
    have "advances s y" "advances s (next_token y)"
      using ne [OF n] nt [of y] by (auto intro: tr)
    with num n show ?thesis
      by (cases r) (simp_all add: base.simps [of s])
  next
    case var
    obtain r y where n: "new_expr TE_VARIABLE [] s = (r, y)"
      by (cases "new_expr TE_VARIABLE [] s")
    have "advances s y" "advances s (next_token y)"
      using ne [OF n] nt [of y] by (auto intro: tr)
    with var n show ?thesis
      by (cases r) (simp_all add: base.simps [of s])
  next
    case f0
    obtain r y where n: "new_expr (type s) [] s = (r, y)"
      by (cases "new_expr (type s) [] s")
    have a: "advances s y" "advances s (next_token y)"
      using ne [OF n] nt [of y] by (auto intro: tr)
    have b: "advances s (next_token (next_token y))"
      using a(2) nt [of "next_token y"] by (rule tr)
    have c: "advances s ((next_token (next_token y))\<lparr>type := TOK_ERROR\<rparr>)"
      using b er by (rule tr)
    have d: "advances s (next_token (next_token (next_token y)))"
      using b nt [of "next_token (next_token y)"] by (rule tr)
    from f0 n a b c d show ?thesis
      by (cases r) (auto simp: base.simps [of s] Let_def)
  next
    case f1
    have "advances (next_token s) (snd (power_te (next_token s)))"
      using 1(1) f1 by auto
    with nt [of s] have a: "advances s (snd (power_te (next_token s)))"
      by (rule tr)
    obtain p s2 where c: "power_te (next_token s) = (p, s2)"
      by (cases "power_te (next_token s)")
    with a have a2: "advances s s2" by simp
    show ?thesis
    proof (cases p)
      case None
      with f1 c a2 show ?thesis
        by (simp add: base_unary)
    next
      case (Some p0)
      obtain r s3 where n: "new_expr (type s) [p0] s2 = (r, s3)"
        by (cases "new_expr (type s) [p0] s2")
      have "advances s s3"
        using a2 ne [OF n] by (rule tr)
      with f1 c Some n show ?thesis
        by (cases r) (simp_all add: base_unary)
    qed
  next
    case fn
    then have masks: "?m \<noteq> 30" "?m \<noteq> 31" "\<not> (?m = 8 \<or> ?m = 16)" "\<not> (?m = 9 \<or> ?m = 17)"
      "10 \<le> ?m \<and> ?m \<le> 15 \<or> 18 \<le> ?m \<and> ?m \<le> 23"
      unfolding multi_arity_def by auto
    let ?s1 = "next_token s"
    show ?thesis
    proof (cases "type ?s1 = TOK_OPEN")
      case False
      have "advances s (?s1\<lparr>type := TOK_ERROR\<rparr>)"
        using nt [of s] er by (rule tr)
      with False show ?thesis
        by (simp add: base_multi [OF fn] Let_def)
    next
      case True
      have "advances ?s1 (snd (base_loop (ARITY (type s)) 0 [] ?s1))"
        using 1(2) masks True by simp
      with nt [of s] have a: "advances s (snd (base_loop (ARITY (type s)) 0 [] ?s1))"
        by (rule tr)
      obtain x s2 where c: "base_loop (ARITY (type s)) 0 [] ?s1 = (x, s2)"
        by (cases "base_loop (ARITY (type s)) 0 [] ?s1")
      with a have a2: "advances s s2" by simp
      show ?thesis
      proof (cases x)
        case None
        with True c a2 show ?thesis
          by (simp add: base_multi [OF fn] Let_def)
      next
        case (Some ip)
        obtain j ps where ip: "ip = (j, ps)" by (cases ip)
        show ?thesis
        proof (cases "type s2 \<noteq> TOK_CLOSE \<or> j \<noteq> ARITY (type s) - 1")
          case bad: True
          have "advances s2 (s2\<lparr>type := TOK_ERROR, ub := (ub s2 \<or> int (length ps) < ARITY (type s))\<rparr>)"
            by (simp add: advances_def)
          with a2 have "advances s (s2\<lparr>type := TOK_ERROR, ub := (ub s2 \<or> int (length ps) < ARITY (type s))\<rparr>)"
            by (rule tr)
          with True c Some ip bad show ?thesis
            by (simp add: base_multi [OF fn] Let_def)
        next
          case good: False
          obtain r s3 where n: "new_expr (type s) ps (next_token s2) = (r, s3)"
            by (cases "new_expr (type s) ps (next_token s2)")
          have "advances s (next_token s2)"
            using a2 nt [of s2] by (rule tr)
          then have "advances s s3"
            using ne [OF n] by (rule tr)
          with True c Some ip good n show ?thesis
            by (cases r) (simp_all add: base_multi [OF fn] Let_def)
        qed
      qed
    qed
  next
    case opn
    have "advances (next_token s) (snd (list_te (next_token s)))"
      using 1(3) opn by simp
    with nt [of s] have a: "advances s (snd (list_te (next_token s)))"
      by (rule tr)
    obtain p s2 where c: "list_te (next_token s) = (p, s2)"
      by (cases "list_te (next_token s)")
    with a have a2: "advances s s2" by simp
    have b: "advances s (s2\<lparr>type := TOK_ERROR\<rparr>)"
      using a2 er by (rule tr)
    have d: "advances s (next_token s2)"
      using a2 nt [of s2] by (rule tr)
    from opn c a2 b d show ?thesis
      by (cases p) (auto simp: base.simps [of s] Let_def)
  next
    case other
    obtain r y where n: "new_expr 0 [] s = (r, y)"
      by (cases "new_expr 0 [] s")
    have "advances s y"
      using ne [OF n] .
    moreover from this have "advances s (y\<lparr>type := TOK_ERROR\<rparr>)"
      using er by (rule tr)
    ultimately show ?thesis
      using other n by (cases r) (auto simp: base.simps [of s] Let_def)
  qed
next
  case (2 arity i params s)
  show ?case
  proof (cases "i < arity")
    case False
    then show ?thesis
      by (simp add: base_loop.simps [of arity i params s] advances_refl)
  next
    case True
    obtain p s2 where c: "expr (next_token s) = (p, s2)"
      by (cases "expr (next_token s)")
    have "advances (next_token s) (snd (expr (next_token s)))"
      using 2(1) True by simp
    with c next_token_advances [of s] have a2: "advances s s2"
      by (auto intro: advances_trans)
    show ?thesis
    proof (cases p)
      case None
      with True c a2 show ?thesis
        by (simp add: base_loop.simps [of arity i params s])
    next
      case (Some q)
      show ?thesis
      proof (cases "type s2 \<noteq> TOK_SEP")
        case stop: True
        with True c Some a2 show ?thesis
          by (simp add: base_loop.simps [of arity i params s])
      next
        case more: False
        have "advances s2 (snd (base_loop arity (i + 1) (params @ [q]) s2))"
          using 2(2) True c [symmetric] Some more by simp
        with a2 have "advances s (snd (base_loop arity (i + 1) (params @ [q]) s2))"
          by (rule advances_trans)
        with True c Some more show ?thesis
          by (simp add: base_loop.simps [of arity i params s])
      qed
    qed
  qed
next
  case (3 s)
  obtain sign s1 where sg: "power_signs 1 s = (sign, s1)"
    by (cases "power_signs 1 s")
  have a1: "advances s s1"
    using power_signs_advances [of s 1] sg by simp
  have ih: "advances s1 (snd (base s1))"
  proof (cases "sign = 1")
    case True
    then show ?thesis using 3(1) sg [symmetric] by simp
  next
    case False
    then show ?thesis using 3(2) sg [symmetric] by simp
  qed
  obtain b s2 where c: "base s1 = (b, s2)"
    by (cases "base s1")
  with ih a1 have a2: "advances s s2"
    by (auto intro: advances_trans)
  show ?case
  proof (cases "sign = 1")
    case True
    with sg c a2 show ?thesis
      by (simp add: power_te.simps [of s])
  next
    case False
    show ?thesis
    proof (cases b)
      case None
      with sg False c a2 show ?thesis
        by (simp add: power_te.simps [of s])
    next
      case (Some q)
      obtain r s3 where n: "new_expr (TE_FUNCTION1 OR TE_FLAG_PURE) [q] s2 = (r, s3)"
        by (cases "new_expr (TE_FUNCTION1 OR TE_FLAG_PURE) [q] s2")
      have "advances s s3"
        using new_expr_advances [of s2 "TE_FUNCTION1 OR TE_FLAG_PURE" "[q]"] n a2
        by (auto intro: advances_trans)
      with sg False c Some n show ?thesis
        by (cases r) (simp_all add: power_te.simps [of s])
    qed
  qed
next
  case (4 s)
  obtain p s1 where c: "power_te s = (p, s1)"
    by (cases "power_te s")
  have a1: "advances s s1"
    using 4(1) c by simp
  show ?case
  proof (cases p)
    case None
    with c a1 show ?thesis
      by (simp add: factor.simps [of s])
  next
    case (Some ret)
    have "advances s1 (snd (factor_loop ret s1))"
      using 4(2) c [symmetric] Some by simp
    with a1 have "advances s (snd (factor_loop ret s1))"
      by (rule advances_trans)
    with c Some show ?thesis
      by (simp add: factor.simps [of s])
  qed
next
  case (5 ret s)
  show ?case
  proof (cases "type s = TOK_INFIX \<and> pointer_of (u s) = ExtPtr ''pow''")
    case False
    then show ?thesis
      by (auto simp: factor_loop.simps [of ret s] advances_refl)
  next
    case True
    obtain p s2 where c: "power_te (next_token s) = (p, s2)"
      by (cases "power_te (next_token s)")
    have "advances (next_token s) (snd (power_te (next_token s)))"
      using 5(1) True by simp
    with c next_token_advances [of s] have a2: "advances s s2"
      by (auto intro: advances_trans)
    show ?thesis
    proof (cases p)
      case None
      with True c a2 show ?thesis
        by (simp add: factor_loop.simps [of ret s])
    next
      case (Some q)
      obtain r s3 where n: "new_expr (TE_FUNCTION2 OR TE_FLAG_PURE) [ret, q] s2 = (r, s3)"
        by (cases "new_expr (TE_FUNCTION2 OR TE_FLAG_PURE) [ret, q] s2")
      have a3: "advances s s3"
        using new_expr_advances [of s2 "TE_FUNCTION2 OR TE_FLAG_PURE" "[ret, q]"] n a2
        by (auto intro: advances_trans)
      show ?thesis
      proof (cases r)
        case None
        with True c Some n a3 show ?thesis
          by (simp add: factor_loop.simps [of ret s])
      next
        case node: (Some ret')
        have "advances s3 (snd (factor_loop (set_function ret' (pointer_of (u s))) s3))"
          using 5(2) True c [symmetric] Some n [symmetric] node by simp
        with a3 have "advances s (snd (factor_loop (set_function ret' (pointer_of (u s))) s3))"
          by (rule advances_trans)
        with True c Some n node show ?thesis
          by (simp add: factor_loop.simps [of ret s])
      qed
    qed
  qed
next
  case (6 s)
  obtain p s1 where c: "factor s = (p, s1)"
    by (cases "factor s")
  have a1: "advances s s1"
    using 6(1) c by simp
  show ?case
  proof (cases p)
    case None
    with c a1 show ?thesis
      by (simp add: term_te.simps [of s])
  next
    case (Some ret)
    have "advances s1 (snd (term_loop ret s1))"
      using 6(2) c [symmetric] Some by simp
    with a1 have "advances s (snd (term_loop ret s1))"
      by (rule advances_trans)
    with c Some show ?thesis
      by (simp add: term_te.simps [of s])
  qed
next
  case (7 ret s)
  show ?case
  proof (cases "type s = TOK_INFIX \<and> (pointer_of (u s) = FunPtr ''mul'' \<or> pointer_of (u s) = FunPtr ''divide'' \<or> pointer_of (u s) = ExtPtr ''fmod'')")
    case False
    then show ?thesis
      by (auto simp: term_loop.simps [of ret s] advances_refl)
  next
    case True
    obtain p s2 where c: "factor (next_token s) = (p, s2)"
      by (cases "factor (next_token s)")
    have "advances (next_token s) (snd (factor (next_token s)))"
      using 7(1) True by simp
    with c next_token_advances [of s] have a2: "advances s s2"
      by (auto intro: advances_trans)
    show ?thesis
    proof (cases p)
      case None
      with True c a2 show ?thesis
        by (simp add: term_loop.simps [of ret s])
    next
      case (Some q)
      obtain r s3 where n: "new_expr (TE_FUNCTION2 OR TE_FLAG_PURE) [ret, q] s2 = (r, s3)"
        by (cases "new_expr (TE_FUNCTION2 OR TE_FLAG_PURE) [ret, q] s2")
      have a3: "advances s s3"
        using new_expr_advances [of s2 "TE_FUNCTION2 OR TE_FLAG_PURE" "[ret, q]"] n a2
        by (auto intro: advances_trans)
      show ?thesis
      proof (cases r)
        case None
        with True c Some n a3 show ?thesis
          by (simp add: term_loop.simps [of ret s])
      next
        case node: (Some ret')
        have "advances s3 (snd (term_loop (set_function ret' (pointer_of (u s))) s3))"
          using 7(2) True c [symmetric] Some n [symmetric] node by simp
        with a3 have "advances s (snd (term_loop (set_function ret' (pointer_of (u s))) s3))"
          by (rule advances_trans)
        with True c Some n node show ?thesis
          by (simp add: term_loop.simps [of ret s])
      qed
    qed
  qed
next
  case (8 s)
  obtain p s1 where c: "term_te s = (p, s1)"
    by (cases "term_te s")
  have a1: "advances s s1"
    using 8(1) c by simp
  show ?case
  proof (cases p)
    case None
    with c a1 show ?thesis
      by (simp add: expr.simps [of s])
  next
    case (Some ret)
    have "advances s1 (snd (expr_loop ret s1))"
      using 8(2) c [symmetric] Some by simp
    with a1 have "advances s (snd (expr_loop ret s1))"
      by (rule advances_trans)
    with c Some show ?thesis
      by (simp add: expr.simps [of s])
  qed
next
  case (9 ret s)
  show ?case
  proof (cases "type s = TOK_INFIX \<and> (pointer_of (u s) = FunPtr ''add'' \<or> pointer_of (u s) = FunPtr ''sub'')")
    case False
    then show ?thesis
      by (auto simp: expr_loop.simps [of ret s] advances_refl)
  next
    case True
    obtain p s2 where c: "term_te (next_token s) = (p, s2)"
      by (cases "term_te (next_token s)")
    have "advances (next_token s) (snd (term_te (next_token s)))"
      using 9(1) True by simp
    with c next_token_advances [of s] have a2: "advances s s2"
      by (auto intro: advances_trans)
    show ?thesis
    proof (cases p)
      case None
      with True c a2 show ?thesis
        by (simp add: expr_loop.simps [of ret s])
    next
      case (Some q)
      obtain r s3 where n: "new_expr (TE_FUNCTION2 OR TE_FLAG_PURE) [ret, q] s2 = (r, s3)"
        by (cases "new_expr (TE_FUNCTION2 OR TE_FLAG_PURE) [ret, q] s2")
      have a3: "advances s s3"
        using new_expr_advances [of s2 "TE_FUNCTION2 OR TE_FLAG_PURE" "[ret, q]"] n a2
        by (auto intro: advances_trans)
      show ?thesis
      proof (cases r)
        case None
        with True c Some n a3 show ?thesis
          by (simp add: expr_loop.simps [of ret s])
      next
        case node: (Some ret')
        have "advances s3 (snd (expr_loop (set_function ret' (pointer_of (u s))) s3))"
          using 9(2) True c [symmetric] Some n [symmetric] node by simp
        with a3 have "advances s (snd (expr_loop (set_function ret' (pointer_of (u s))) s3))"
          by (rule advances_trans)
        with True c Some n node show ?thesis
          by (simp add: expr_loop.simps [of ret s])
      qed
    qed
  qed
next
  case (10 s)
  obtain p s1 where c: "expr s = (p, s1)"
    by (cases "expr s")
  have a1: "advances s s1"
    using 10(1) c by simp
  show ?case
  proof (cases p)
    case None
    with c a1 show ?thesis
      by (simp add: list_te.simps [of s])
  next
    case (Some ret)
    have "advances s1 (snd (list_loop ret s1))"
      using 10(2) c [symmetric] Some by simp
    with a1 have "advances s (snd (list_loop ret s1))"
      by (rule advances_trans)
    with c Some show ?thesis
      by (simp add: list_te.simps [of s])
  qed
next
  case (11 ret s)
  show ?case
  proof (cases "type s = TOK_SEP")
    case False
    then show ?thesis
      by (auto simp: list_loop.simps [of ret s] advances_refl)
  next
    case True
    obtain p s2 where c: "expr (next_token s) = (p, s2)"
      by (cases "expr (next_token s)")
    have "advances (next_token s) (snd (expr (next_token s)))"
      using 11(1) True by simp
    with c next_token_advances [of s] have a2: "advances s s2"
      by (auto intro: advances_trans)
    show ?thesis
    proof (cases p)
      case None
      with True c a2 show ?thesis
        by (simp add: list_loop.simps [of ret s])
    next
      case (Some q)
      obtain r s3 where n: "new_expr (TE_FUNCTION2 OR TE_FLAG_PURE) [ret, q] s2 = (r, s3)"
        by (cases "new_expr (TE_FUNCTION2 OR TE_FLAG_PURE) [ret, q] s2")
      have a3: "advances s s3"
        using new_expr_advances [of s2 "TE_FUNCTION2 OR TE_FLAG_PURE" "[ret, q]"] n a2
        by (auto intro: advances_trans)
      show ?thesis
      proof (cases r)
        case None
        with True c Some n a3 show ?thesis
          by (simp add: list_loop.simps [of ret s])
      next
        case node: (Some ret')
        have "advances s3 (snd (list_loop (set_function ret' (FunPtr ''comma'')) s3))"
          using 11(2) True c [symmetric] Some n [symmetric] node by simp
        with a3 have "advances s (snd (list_loop (set_function ret' (FunPtr ''comma'')) s3))"
          by (rule advances_trans)
        with True c Some n node show ?thesis
          by (simp add: list_loop.simps [of ret s])
      qed
    qed
  qed
qed

lemma parse_advances:
  "list_te (next_token (initial_state ms e vs n)) = (tree, s) \<Longrightarrow>
   start s = e \<and> (\<exists>consumed. e = consumed @ next s)"
proof -
  assume p: "list_te (next_token (initial_state ms e vs n)) = (tree, s)"
  let ?i = "initial_state ms e vs n"
  have "advances ?i (next_token ?i)" by (rule next_token_advances)
  moreover have "advances (next_token ?i) s"
    using parser_advances(10) [of "next_token ?i"] p by simp
  ultimately have "advances ?i s" by (rule advances_trans)
  then show ?thesis
    by (simp add: advances_def initial_state_def)
qed

text \<open>
  Claim C3, amended.  When the parse returns a tree and stops at a token that is not
  the end of the input, \<open>te_compile\<close> stores the number of characters read by then, the
  unexpected token included, and 1 when none was read; when it stops at the end of
  the input \<open>te_compile\<close> returns the optimized tree and stores 0.  It stores 0 in no
  other case.  For \<open>2+\<close> it stores 2, both characters having been read when the end of
  the input is met; for \<open>(1+2\<close> it stores 4; for \<open>2 $\<close>, 3; for the empty expression, 1.
\<close>

theorem error_is_characters_read:
  "(list_te (next_token (initial_state ms e vs n)) = (Some r, s) \<and> \<not> ub s \<and> type s \<noteq> TOK_END \<longrightarrow>
      (\<exists>consumed. e = consumed @ next s
         \<and> te_compile env ms e vs n =
             Returned (None, if consumed = [] then 1 else int (length consumed))))
   \<and> (list_te (next_token (initial_state ms e vs n)) = (Some r, s) \<and> \<not> ub s \<and> type s = TOK_END \<longrightarrow>
      te_compile env ms e vs n = Returned (Some (optimize env r), 0))
   \<and> (te_compile env ms e vs n = Returned (t, err) \<longrightarrow> (err = 0 \<longleftrightarrow> t \<noteq> None))
   \<and> te_compile env [] ''2+'' None 0 = Returned (None, 2)
   \<and> te_compile env [] ''(1+2'' None 0 = Returned (None, 4)
   \<and> te_compile env [] ''2 $'' None 0 = Returned (None, 3)
   \<and> te_compile env [] [] None 0 = Returned (None, 1)"
proof (intro conjI impI)
  assume a: "list_te (next_token (initial_state ms e vs n)) = (Some r, s) \<and> \<not> ub s \<and> type s \<noteq> TOK_END"
  then obtain consumed where c: "start s = e" "e = consumed @ next s"
    using parse_advances [of ms e vs n "Some r" s] by blast
  then have "length (start s) - length (next s) = length consumed"
    by (metis add_diff_cancel_right' length_append)
  with a have "te_compile env ms e vs n =
             Returned (None, if consumed = [] then 1 else int (length consumed))"
    by (simp add: te_compile_def Let_def)
  with c(2) show "\<exists>consumed. e = consumed @ next s
         \<and> te_compile env ms e vs n =
             Returned (None, if consumed = [] then 1 else int (length consumed))"
    by blast
next
  assume "list_te (next_token (initial_state ms e vs n)) = (Some r, s) \<and> \<not> ub s \<and> type s = TOK_END"
  then show "te_compile env ms e vs n = Returned (Some (optimize env r), 0)"
    by (simp add: te_compile_def Let_def)
next
  assume "te_compile env ms e vs n = Returned (t, err)"
  then show "err = 0 \<longleftrightarrow> t \<noteq> None"
    by (cases "list_te (next_token (initial_state ms e vs n))")
      (auto simp: te_compile_def Let_def split: if_splits option.splits)
qed (code_simp, simp?)+

theorem error_is_characters_read_witness:
  "\<exists>consumed. ''2+'' = consumed @ []
     \<and> te_compile env0 [] ''2+'' None 0 =
         Returned (None, if consumed = [] then 1 else int (length consumed))"
proof -
  have p: "list_te (next_token (initial_state [] ''2+'' None 0)) =
      (Some (binary (FunPtr ''add'') (Node TE_CONSTANT (Value (Fin 2)) [] 0)
               (Node TE_VARIABLE (Value NaN) [] 0)),
       \<lparr>start = ''2+'', next = [], type = TOK_ERROR, u = Function (FunPtr ''add''), context = 0,
        lookup = None, lookup_len = 0, heap = [], ub = False\<rparr>)"
    by code_simp
  from error_is_characters_read [of "[]" "''2+''" None 0 _ _ env0] p
  show ?thesis by simp
qed

end
